theory Spec2Isabelle
  imports
    Complex_Main
    "HOL-Library.Sublist"
    "HOL-Library.Char_ord"
    "HOL-Library.List_Lexorder"
    "HOL-Library.Product_Lexorder"
    "HOL-Library.Multiset"
begin

section \<open>Python strings\<close>

text \<open>
  A Python \<open>str\<close> is modelled as a \<open>string\<close>: the list of its code points, one
  \<open>char\<close> per code point, for code points up to U+00FF. \<open>len\<close> is \<open>length\<close>,
  a slice \<open>s[:n]\<close> is \<open>take n s\<close>, and comparison is the lexicographic order on
  code points.

  \<open>str.strip()\<close> removes leading and trailing whitespace, which for these code points
  is: U+0009 to U+000D, U+001C to U+001F, U+0020, U+0085 and U+00A0.
\<close>

definition is_space :: "char \<Rightarrow> bool" where
  "is_space c \<longleftrightarrow> (of_char c :: nat) \<in> {9, 10, 11, 12, 13, 28, 29, 30, 31, 32, 133, 160}"

definition lstrip :: "string \<Rightarrow> string" where
  "lstrip s = dropWhile is_space s"

definition rstrip :: "string \<Rightarrow> string" where
  "rstrip s = rev (dropWhile is_space (rev s))"

definition strip :: "string \<Rightarrow> string" where
  "strip s = rstrip (lstrip s)"

definition startswith :: "string \<Rightarrow> string \<Rightarrow> bool" where
  "startswith s p \<longleftrightarrow> take (length p) s = p"

definition endswith :: "string \<Rightarrow> string \<Rightarrow> bool" where
  "endswith s p \<longleftrightarrow> length p \<le> length s \<and> drop (length s - length p) s = p"

text \<open>
  \<open>str.lower()\<close> on these code points: \<open>A\<close> to \<open>Z\<close> and the upper-case letters
  U+00C0 to U+00DE (U+00D7, the multiplication sign, apart) move up by 32.
\<close>

definition lower_char :: "char \<Rightarrow> char" where
  "lower_char c =
     (let n = (of_char c :: nat)
      in if (65 \<le> n \<and> n \<le> 90) \<or> (192 \<le> n \<and> n \<le> 222 \<and> n \<noteq> 215)
         then char_of (n + 32) else c)"

definition lower :: "string \<Rightarrow> string" where
  "lower s = map lower_char s"

text \<open>\<open>sep.join(parts)\<close>.\<close>

fun join :: "string \<Rightarrow> string list \<Rightarrow> string" where
  "join sep [] = []"
| "join sep [p] = p"
| "join sep (p # q # ps) = p @ sep @ join sep (q # ps)"

section \<open>Parsed JSON\<close>

text \<open>
  What \<open>json.loads\<close> returns: \<open>None\<close>, a \<open>bool\<close>, a number, a \<open>str\<close>, a
  \<open>list\<close> or a \<open>dict\<close> with \<open>str\<close> keys. Numbers (\<open>int\<close> and finite
  \<open>float\<close>) are rationals: every finite float is one, and the only arithmetic the
  program does on them is comparison. A \<open>dict\<close> is the list of its items in
  insertion order; its keys are distinct (\<open>wf_json\<close>).
\<close>

datatype json =
    JNull
  | JBool bool
  | JNum rat
  | JStr string
  | JArr "json list"
  | JObj "(string \<times> json) list"

type_synonym dict = "(string \<times> json) list"

fun wf_json :: "json \<Rightarrow> bool" where
  "wf_json (JArr xs) = list_all wf_json xs"
| "wf_json (JObj kvs) = (distinct (map fst kvs) \<and> list_all (\<lambda>kv. wf_json (snd kv)) kvs)"
| "wf_json _ = True"

text \<open>\<open>d[k] = v\<close>: an existing key keeps its position, a new key goes last.\<close>

fun dict_set :: "dict \<Rightarrow> string \<Rightarrow> json \<Rightarrow> dict" where
  "dict_set [] k v = [(k, v)]"
| "dict_set ((k', v') # d) k v = (if k' = k then (k, v) # d else (k', v') # dict_set d k v)"

text \<open>A dict comprehension \<open>{k: v for ...}\<close> stores its items one after the other.\<close>

definition dict_of_items :: "(string \<times> json) list \<Rightarrow> dict" where
  "dict_of_items items = foldl (\<lambda>d kv. dict_set d (fst kv) (snd kv)) [] items"

text \<open>\<open>d.get(k)\<close> is \<open>map_of d k\<close>; \<open>d.get(k, default)\<close>:\<close>

definition dict_get :: "dict \<Rightarrow> string \<Rightarrow> json \<Rightarrow> json" where
  "dict_get d k dflt = (case map_of d k of None \<Rightarrow> dflt | Some v \<Rightarrow> v)"

text \<open>Truth value of an object in a condition (\<open>if x\<close>, \<open>not x\<close>).\<close>

fun truthy :: "json \<Rightarrow> bool" where
  "truthy JNull = False"
| "truthy (JBool b) = b"
| "truthy (JNum r) = (r \<noteq> 0)"
| "truthy (JStr s) = (s \<noteq> [])"
| "truthy (JArr xs) = (xs \<noteq> [])"
| "truthy (JObj kvs) = (kvs \<noteq> [])"

section \<open>Record repair\<close>

text \<open>\<open>normalize_json_keys\<close>, lines 89 to 110.\<close>

fun normalize_json_keys :: "json \<Rightarrow> json" where
  "normalize_json_keys (JObj kvs) =
     JObj (dict_of_items
       (map (\<lambda>kv. (strip (fst kv), normalize_json_keys (snd kv)))
         (filter (\<lambda>kv. strip (fst kv) \<noteq> []) kvs)))"
| "normalize_json_keys (JArr xs) = JArr (map normalize_json_keys xs)"
| "normalize_json_keys (JStr s) = JStr (strip s)"
| "normalize_json_keys obj = obj"

text \<open>
  \<open>_collect_keys\<close>, lines 112 to 124. The set \<open>keys\<close> is mutated in place and
  shared by the recursive calls; here it is passed in and returned.
\<close>

fun collect_keys :: "json \<Rightarrow> string set \<Rightarrow> string set" where
  "collect_keys (JObj kvs) keys =
     foldl (\<lambda>acc kv. collect_keys (snd kv) (insert (fst kv) acc)) keys kvs"
| "collect_keys (JArr xs) keys = foldl (\<lambda>acc item. collect_keys item acc) keys xs"
| "collect_keys obj keys = keys"

text \<open>The test of lines 249 to 252.\<close>

definition needs_repair :: "json \<Rightarrow> bool" where
  "needs_repair data \<longleftrightarrow>
     (\<exists>k \<in> collect_keys data {}. startswith k '' '' \<or> endswith k '' '')"

section \<open>Paths and files\<close>

text \<open>
  \<open>pathlib\<close> on a POSIX path given as a string without a trailing slash: \<open>name\<close>
  is the last component, \<open>suffix\<close> is the part of the name from its last dot on,
  when that dot is neither the first nor the last character of the name.
\<close>

definition path_name :: "string \<Rightarrow> string" where
  "path_name p = rev (takeWhile (\<lambda>c. c \<noteq> CHR ''/'') (rev p))"

definition rfind :: "string \<Rightarrow> char \<Rightarrow> nat option" where
  "rfind s c =
     (let after = takeWhile (\<lambda>x. x \<noteq> c) (rev s)
      in if length after = length s then None else Some (length s - length after - 1))"

definition path_suffix :: "string \<Rightarrow> string" where
  "path_suffix p =
     (let name = path_name p
      in case rfind name CHR ''.'' of
           None \<Rightarrow> []
         | Some i \<Rightarrow> if 0 < i \<and> i < length name - 1 then drop i name else [])"

text \<open>
  \<open>with_suffix\<close> replaces the suffix, or appends when there is none. (It raises on
  an empty name; the loader calls it only on a path whose suffix is not empty.)
\<close>

definition with_suffix :: "string \<Rightarrow> string \<Rightarrow> string" where
  "with_suffix p sfx =
     (let old_suffix = path_suffix p
      in if old_suffix = [] then p @ sfx
         else take (length p - length old_suffix) p @ sfx)"

text \<open>
  The file system is a map from paths to file contents. The loader's effects are
  recorded in the order in which the code performs them, and \<open>run\<close> replays them.
\<close>

type_synonym files = "string \<rightharpoonup> string"

datatype message =
    Malformed_JSON_detected
  | Original_saved_as string
  | Repaired_JSON_saved_to string

datatype event =
    Read string
  | Copy string string
  | Write string string
  | Print message

fun apply_event :: "files \<Rightarrow> event \<Rightarrow> files" where
  "apply_event fs (Read p) = fs"
| "apply_event fs (Copy src dst) = fs(dst := fs src)"
| "apply_event fs (Write p c) = fs(p \<mapsto> c)"
| "apply_event fs (Print m) = fs"

definition run :: "files \<Rightarrow> event list \<Rightarrow> files" where
  "run fs evs = foldl apply_event fs evs"

section \<open>Errors\<close>

datatype value_error =
    Expected_JSON_file string
  | Invalid_JSON_format string
  | JSON_missing_required_keys "string set" "string set"

datatype error =
    FileNotFoundError string
  | ValueError value_error
  | TypeError
  | AttributeError
  | KeyError

section \<open>Loading the record\<close>

text \<open>The validation of lines 265 to 275; \<open>data.keys()\<close> exists on a dict only.\<close>

definition validate :: "json \<Rightarrow> error + json" where
  "validate data =
     (case data of
        JObj kvs \<Rightarrow>
          (let required_keys = {''date'', ''pages''};
               actual_keys = set (map fst kvs);
               missing_keys = required_keys - actual_keys
           in if missing_keys \<noteq> {}
              then Inl (ValueError (JSON_missing_required_keys missing_keys actual_keys))
              else Inr data)
      | _ \<Rightarrow> Inl AttributeError)"

text \<open>
  \<open>load_browsing_data\<close>, lines 221 to 275. \<open>json.loads\<close> (\<open>Inl\<close> its
  \<open>JSONDecodeError\<close> message) and \<open>json.dump\<close> are parameters. The result is what
  the function returns or raises, with the effects it has performed by then. A path
  exists when the file system maps it; failures of the operating system itself (a file
  that cannot be read, copied or written) are not modelled.
\<close>

definition load_browsing_data ::
  "(string \<Rightarrow> string + json) \<Rightarrow> (json \<Rightarrow> string) \<Rightarrow> string \<Rightarrow> files \<Rightarrow> (error + json) \<times> event list"
where
  "load_browsing_data loads dumps filepath fs =
     (case fs filepath of
        None \<Rightarrow> (Inl (FileNotFoundError filepath), [])
      | Some raw_content \<Rightarrow>
          if \<not> lower (path_suffix filepath) = ''.json''
          then (Inl (ValueError (Expected_JSON_file (path_suffix filepath))), [])
          else
            (case loads raw_content of
               Inl e \<Rightarrow> (Inl (ValueError (Invalid_JSON_format e)), [Read filepath])
             | Inr data \<Rightarrow>
                 if needs_repair data
                 then
                   (let original_backup = with_suffix filepath ''.json.bak'';
                        repaired_data = normalize_json_keys data
                    in (validate repaired_data,
                        [Read filepath,
                         Print Malformed_JSON_detected,
                         Copy filepath original_backup,
                         Print (Original_saved_as (path_name original_backup)),
                         Write filepath (dumps repaired_data),
                         Print (Repaired_JSON_saved_to (path_name filepath))]))
                 else (validate data, [Read filepath])))"

section \<open>Dynamic typing\<close>

text \<open>
  Where the interpreter raises on a value of the wrong type, the model returns the
  error. \<open>bind_err\<close> runs the rest of a computation on a result, or passes the error
  on, as a raise does.
\<close>

definition bind_err :: "error + 'a \<Rightarrow> ('a \<Rightarrow> error + 'b) \<Rightarrow> error + 'b" where
  "bind_err m f = (case m of Inl e \<Rightarrow> Inl e | Inr x \<Rightarrow> f x)"

text \<open>\<open>obj.get(k, default)\<close>: only a dict has \<open>get\<close>.\<close>

fun py_get :: "json \<Rightarrow> string \<Rightarrow> json \<Rightarrow> error + json" where
  "py_get (JObj d) k dflt = Inr (dict_get d k dflt)"
| "py_get _ k dflt = Inl AttributeError"

text \<open>\<open>obj.strip()\<close>: only a str has \<open>strip\<close>.\<close>

fun py_strip :: "json \<Rightarrow> error + string" where
  "py_strip (JStr s) = Inr (strip s)"
| "py_strip _ = Inl AttributeError"

text \<open>A value in a comparison with a number: a number, or a bool (\<open>True\<close> is 1).\<close>

fun py_number :: "json \<Rightarrow> error + rat" where
  "py_number (JNum r) = Inr r"
| "py_number (JBool b) = Inr (if b then 1 else 0)"
| "py_number _ = Inl TypeError"

text \<open>\<open>len(obj)\<close>.\<close>

fun py_len :: "json \<Rightarrow> error + nat" where
  "py_len (JStr s) = Inr (length s)"
| "py_len (JArr xs) = Inr (length xs)"
| "py_len (JObj kvs) = Inr (length kvs)"
| "py_len _ = Inl TypeError"

text \<open>
  \<open>for p in obj\<close>: a list gives its elements, a str its characters, a dict its keys.
\<close>

fun py_iter :: "json \<Rightarrow> error + json list" where
  "py_iter (JArr xs) = Inr xs"
| "py_iter (JStr s) = Inr (map (\<lambda>c. JStr [c]) s)"
| "py_iter (JObj kvs) = Inr (map (\<lambda>kv. JStr (fst kv)) kvs)"
| "py_iter _ = Inl TypeError"

text \<open>\<open>xs[:n]\<close> for an int \<open>n\<close>: a negative \<open>n\<close> counts from the end.\<close>

definition slice_to :: "'a list \<Rightarrow> int \<Rightarrow> 'a list" where
  "slice_to xs n = (if 0 \<le> n then take (nat n) xs else take (length xs - nat (- n)) xs)"

section \<open>Top pages\<close>

text \<open>The condition of the comprehension, lines 346 to 351, with its short circuits.\<close>

definition is_valid_page :: "json \<Rightarrow> error + bool" where
  "is_valid_page p =
     bind_err (py_get p ''url'' JNull) (\<lambda>url.
       if \<not> truthy url then Inr False
       else bind_err (py_strip url) (\<lambda>u.
         if \<not> startswith u ''http'' then Inr False
         else bind_err (py_get p ''readingTime'' (JNum 0)) (\<lambda>rt.
           bind_err (py_number rt) (\<lambda>r.
             if r > 1 / 2 then Inr True
             else bind_err (py_get p ''content'' (JStr [])) (\<lambda>c.
               bind_err (py_len c) (\<lambda>n. Inr (n > 100)))))))"

fun valid_pages :: "json list \<Rightarrow> error + json list" where
  "valid_pages [] = Inr []"
| "valid_pages (p # pages) =
     bind_err (is_valid_page p) (\<lambda>ok.
       bind_err (valid_pages pages) (\<lambda>rest.
         Inr (if ok then p # rest else rest)))"

text \<open>
  The sort key of lines 359 to 362, a tuple compared lexicographically. The pages that
  reach the sort have passed the filter, where their reading time was compared with a
  number; the length of the content may still raise here.
\<close>

definition sort_key_of :: "json \<Rightarrow> error + (rat \<times> nat)" where
  "sort_key_of p =
     bind_err (py_get p ''readingTime'' (JNum 0)) (\<lambda>rt.
       bind_err (py_number rt) (\<lambda>r.
         bind_err (py_get p ''content'' (JStr [])) (\<lambda>c.
           bind_err (py_len c) (\<lambda>n. Inr (r, n)))))"

text \<open>\<open>sorted\<close> computes the key of every element first, in order.\<close>

fun with_keys :: "('a \<Rightarrow> error + 'k) \<Rightarrow> 'a list \<Rightarrow> error + ('k \<times> 'a) list" where
  "with_keys f [] = Inr []"
| "with_keys f (x # xs) =
     bind_err (f x) (\<lambda>k.
       bind_err (with_keys f xs) (\<lambda>rest. Inr ((k, x) # rest)))"

text \<open>
  \<open>sorted(..., reverse=True)\<close> is a stable sort into descending order of the keys:
  elements with equal keys keep their order. Insertion from the right, each element
  going before the first one whose key is not greater, is such a sort.
\<close>

fun insert_desc :: "('k::linorder) \<times> 'a \<Rightarrow> ('k \<times> 'a) list \<Rightarrow> ('k \<times> 'a) list" where
  "insert_desc x [] = [x]"
| "insert_desc x (y # ys) = (if fst y \<le> fst x then x # y # ys else y # insert_desc x ys)"

definition sorted_reverse :: "(('k::linorder) \<times> 'a) list \<Rightarrow> ('k \<times> 'a) list" where
  "sorted_reverse xs = foldr insert_desc xs []"

definition sort_pages :: "json list \<Rightarrow> error + json list" where
  "sort_pages pages =
     bind_err (with_keys sort_key_of pages) (\<lambda>keyed. Inr (map snd (sorted_reverse keyed)))"

text \<open>The deduplication key of lines 370 to 372.\<close>

definition dedup_key :: "json \<Rightarrow> error + string" where
  "dedup_key page =
     bind_err (py_get page ''title'' (JStr [])) (\<lambda>t.
       bind_err (py_strip t) (\<lambda>t'.
         bind_err (py_get page ''domain'' (JStr [])) (\<lambda>d.
           bind_err (py_strip d) (\<lambda>d'.
             Inr (lower d' @ '':'' @ take 50 (lower t'))))))"

text \<open>The loop of lines 367 to 377, with its \<open>break\<close>.\<close>

fun dedup_loop :: "int \<Rightarrow> json list \<Rightarrow> string set \<Rightarrow> json list \<Rightarrow> error + json list" where
  "dedup_loop top_n [] seen unique_pages = Inr unique_pages"
| "dedup_loop top_n (page # sorted_pages) seen unique_pages =
     bind_err (dedup_key page) (\<lambda>key.
       if key \<notin> seen
       then (if int (length (unique_pages @ [page])) \<ge> top_n
             then Inr (unique_pages @ [page])
             else dedup_loop top_n sorted_pages (insert key seen) (unique_pages @ [page]))
       else dedup_loop top_n sorted_pages seen unique_pages)"

text \<open>\<open>get_top_pages\<close>, lines 339 to 379.\<close>

definition get_top_pages :: "json \<Rightarrow> int \<Rightarrow> error + json list" where
  "get_top_pages data top_n =
     bind_err (py_get data ''pages'' (JArr [])) (\<lambda>pages.
       bind_err (py_iter pages) (\<lambda>ps.
         bind_err (valid_pages ps) (\<lambda>valid.
           if valid = [] then Inr []
           else bind_err (sort_pages valid) (\<lambda>sorted_pages.
             bind_err (dedup_loop top_n sorted_pages {} []) (\<lambda>unique_pages.
               Inr (slice_to unique_pages top_n))))))"

section \<open>Content for the language model\<close>

text \<open>
  An f-string field \<open>{v}\<close> inserts a str as it is and any other value through
  \<open>str()\<close>, the parameter \<open>render\<close>.
\<close>

definition py_format :: "(json \<Rightarrow> string) \<Rightarrow> json \<Rightarrow> string" where
  "py_format render v = (case v of JStr s \<Rightarrow> s | _ \<Rightarrow> render v)"

text \<open>\<open>obj[:n]\<close> for a literal \<open>n\<close>: a str and a list can be sliced.\<close>

fun py_slice :: "nat \<Rightarrow> json \<Rightarrow> error + json" where
  "py_slice n (JStr s) = Inr (JStr (take n s))"
| "py_slice n (JArr xs) = Inr (JArr (take n xs))"
| "py_slice n _ = Inl TypeError"

text \<open>\<open>s.replace(c, new)\<close> for a single character \<open>c\<close>.\<close>

definition replace_char :: "char \<Rightarrow> string \<Rightarrow> string \<Rightarrow> string" where
  "replace_char c new s = concat (map (\<lambda>x. if x = c then new else [x]) s)"

text \<open>
  The time of day, lines 294 to 298. The parameter \<open>hhmm\<close> is
  \<open>datetime.fromisoformat(s).strftime('%H:%M')\<close>, \<open>None\<close> when it raises
  \<open>ValueError\<close>; a timestamp that is not a str has no \<open>replace\<close>, and the
  \<open>AttributeError\<close> is caught as well.
\<close>

definition time_str :: "(string \<Rightarrow> string option) \<Rightarrow> json \<Rightarrow> string" where
  "time_str hhmm timestamp =
     (case timestamp of
        JStr s \<Rightarrow>
          (case hhmm (replace_char CHR ''Z'' ''+00:00'' s) of
             Some t \<Rightarrow> t
           | None \<Rightarrow> ''Unknown time'')
      | _ \<Rightarrow> ''Unknown time'')"

text \<open>The block of one page, lines 289 to 304.\<close>

definition page_text :: "(string \<Rightarrow> string option) \<Rightarrow> (json \<Rightarrow> string) \<Rightarrow> json \<Rightarrow> error + string" where
  "page_text hhmm render page =
     bind_err (py_get page ''title'' (JStr ''Untitled'')) (\<lambda>title.
       bind_err (py_get page ''domain'' (JStr ''Unknown'')) (\<lambda>domain.
         bind_err (py_get page ''content'' (JStr [])) (\<lambda>c.
           bind_err (py_slice 1000 c) (\<lambda>content.
             bind_err (py_get page ''timestamp'' (JStr [])) (\<lambda>timestamp.
               Inr (''\<newline>---\<newline>['' @ time_str hhmm timestamp @ ''] ''
                    @ py_format render title
                    @ ''\<newline>Source: '' @ py_format render domain
                    @ ''\<newline>Content: '' @ py_format render content
                    @ ''\<newline>''))))))"

text \<open>
  \<open>sorted(pages, key=lambda x: x.get('timestamp', ''))\<close>, line 283: a stable sort
  into ascending order. The keys can be ordered when they are all strings or all
  numbers; two keys of other or of different types make the comparison raise. (Python
  also orders lists element by element; the model does not.) A list of at most one
  page needs no comparison.
\<close>

fun str_key :: "json \<times> 'a \<Rightarrow> (string \<times> 'a) option" where
  "str_key (JStr s, x) = Some (s, x)"
| "str_key _ = None"

definition num_key :: "json \<times> 'a \<Rightarrow> (rat \<times> 'a) option" where
  "num_key kx = (case py_number (fst kx) of Inr r \<Rightarrow> Some (r, snd kx) | Inl e \<Rightarrow> None)"

definition sort_by_timestamp :: "json list \<Rightarrow> error + json list" where
  "sort_by_timestamp pages =
     bind_err (with_keys (\<lambda>x. py_get x ''timestamp'' (JStr [])) pages) (\<lambda>keyed.
       if length keyed \<le> 1 then Inr (map snd keyed)
       else
         (case those (map str_key keyed) of
            Some by_str \<Rightarrow> Inr (map snd (sort_key fst by_str))
          | None \<Rightarrow>
              (case those (map num_key keyed) of
                 Some by_num \<Rightarrow> Inr (map snd (sort_key fst by_num))
               | None \<Rightarrow> Inl TypeError)))"

text \<open>The loop of lines 288 to 309, with its \<open>break\<close>.\<close>

fun budget_loop ::
  "(string \<Rightarrow> string option) \<Rightarrow> (json \<Rightarrow> string) \<Rightarrow> int \<Rightarrow> json list \<Rightarrow> rat \<Rightarrow> string list
     \<Rightarrow> error + string list"
where
  "budget_loop hhmm render max_tokens [] estimated_tokens content_parts = Inr content_parts"
| "budget_loop hhmm render max_tokens (page # pages) estimated_tokens content_parts =
     bind_err (page_text hhmm render page) (\<lambda>text.
       let page_tokens = of_nat (length text) * (1 / 4)
       in if estimated_tokens + page_tokens > of_int max_tokens
          then Inr content_parts
          else budget_loop hhmm render max_tokens pages
                 (estimated_tokens + page_tokens) (content_parts @ [text]))"

text \<open>\<open>prepare_content_for_llm\<close>, lines 277 to 310.\<close>

definition prepare_content_for_llm ::
  "(string \<Rightarrow> string option) \<Rightarrow> (json \<Rightarrow> string) \<Rightarrow> json \<Rightarrow> int \<Rightarrow> error + string"
where
  "prepare_content_for_llm hhmm render data max_tokens =
     bind_err (py_get data ''pages'' (JArr [])) (\<lambda>pages.
       if \<not> truthy pages then Inr []
       else bind_err (py_iter pages) (\<lambda>ps.
         bind_err (sort_by_timestamp ps) (\<lambda>sorted_pages.
           bind_err (budget_loop hhmm render max_tokens sorted_pages 0 []) (\<lambda>content_parts.
             Inr (join ''\<newline>'' content_parts)))))"

section \<open>Saving the digest\<close>

text \<open>
  The wall clock and the files are the world \<open>save_digest\<close> runs in.
  \<open>strftime_minutes\<close> is \<open>strftime('%Y-%m-%d %H:%M')\<close> for a four-digit year.
\<close>

record datetime =
  year :: nat
  month :: nat
  day :: nat
  hour :: nat
  minute :: nat
  second :: nat

record world =
  clock :: datetime
  files :: files

definition digit :: "nat \<Rightarrow> char" where
  "digit n = char_of (48 + n mod 10)"

definition pad2 :: "nat \<Rightarrow> string" where
  "pad2 n = [digit (n div 10), digit n]"

definition pad4 :: "nat \<Rightarrow> string" where
  "pad4 n = [digit (n div 1000), digit (n div 100), digit (n div 10), digit n]"

definition strftime_minutes :: "datetime \<Rightarrow> string" where
  "strftime_minutes t =
     pad4 (year t) @ ''-'' @ pad2 (month t) @ ''-'' @ pad2 (day t)
     @ '' '' @ pad2 (hour t) @ '':'' @ pad2 (minute t)"

text \<open>\<open>d[k]\<close> raises \<open>KeyError\<close> on a missing key.\<close>

definition py_index :: "dict \<Rightarrow> string \<Rightarrow> error + json" where
  "py_index d k = (case map_of d k of None \<Rightarrow> Inl KeyError | Some v \<Rightarrow> Inr v)"

text \<open>
  The books symbol of the title line, U+1F4DA, is beyond the code points of the
  model; it stands here as the four bytes of its UTF-8 encoding, the encoding the
  file is written in.
\<close>

definition books :: string where
  "books = [CHR 0xF0, CHR 0x9F, CHR 0x93, CHR 0x9A]"

text \<open>
  \<open>save_digest\<close>, lines 568 to 580. \<open>datetime.now()\<close> reads the clock of the
  world; the result is the world after the write.
\<close>

definition save_digest ::
  "(json \<Rightarrow> string) \<Rightarrow> string \<Rightarrow> string \<Rightarrow> json \<Rightarrow> dict \<Rightarrow> world \<Rightarrow> error + world"
where
  "save_digest render digest output_path date stats w =
     (let now = clock w
      in bind_err (py_index stats ''total_pages'') (\<lambda>total_pages.
           bind_err (py_index stats ''total_reading_time'') (\<lambda>total_reading_time.
             let full_content =
                   ''# '' @ books @ '' Browsing Digest - '' @ py_format render date
                   @ ''\<newline>**Generated**: '' @ strftime_minutes now
                   @ ''\<newline>**Pages analyzed**: '' @ py_format render total_pages
                   @ ''\<newline>**Estimated reading time**: ''
                   @ py_format render total_reading_time @ '' minutes''
                   @ ''\<newline>---\<newline>'' @ digest
                   @ ''\<newline>---\<newline>''
                   @ ''*Generated locally using llama.cpp server. No data left your machine.*''
                   @ ''\<newline>''
             in Inr (w\<lparr>files := (files w)(output_path \<mapsto> full_content)\<rparr>))))"

section \<open>Properties of records\<close>

text \<open>
  The vocabulary of the statements about repair. A string is padded when it is not empty
  and its first or its last character is whitespace (\<open>ws_padded\<close>), or is the
  space character U+0020 (\<open>space_padded\<close>). \<open>some_key P j\<close>: some key of
  \<open>j\<close>, at any depth through dicts and lists, satisfies \<open>P\<close>; \<open>keys_of j\<close>
  is the set of these keys. A record is \<open>normalized\<close> when no key is empty or
  padded with whitespace and no string value is padded with whitespace.
\<close>

definition ws_padded :: "string \<Rightarrow> bool" where
  "ws_padded s \<longleftrightarrow> s \<noteq> [] \<and> (is_space (hd s) \<or> is_space (last s))"

definition space_padded :: "string \<Rightarrow> bool" where
  "space_padded s \<longleftrightarrow> s \<noteq> [] \<and> (hd s = CHR '' '' \<or> last s = CHR '' '')"

fun some_key :: "(string \<Rightarrow> bool) \<Rightarrow> json \<Rightarrow> bool" where
  "some_key P (JObj kvs) = list_ex (\<lambda>kv. P (fst kv) \<or> some_key P (snd kv)) kvs"
| "some_key P (JArr xs) = list_ex (some_key P) xs"
| "some_key P _ = False"

fun keys_of :: "json \<Rightarrow> string set" where
  "keys_of (JObj kvs) = (\<Union>kv \<in> set kvs. insert (fst kv) (keys_of (snd kv)))"
| "keys_of (JArr xs) = (\<Union>x \<in> set xs. keys_of x)"
| "keys_of _ = {}"

fun normalized :: "json \<Rightarrow> bool" where
  "normalized (JObj kvs) =
     list_all (\<lambda>kv. fst kv \<noteq> [] \<and> \<not> ws_padded (fst kv) \<and> normalized (snd kv)) kvs"
| "normalized (JArr xs) = list_all normalized xs"
| "normalized (JStr s) = (\<not> ws_padded s)"
| "normalized _ = True"

section \<open>Properties of pages\<close>

text \<open>
  A page of the data model: a dict whose fields \<open>url\<close>, \<open>title\<close>, \<open>domain\<close>,
  \<open>content\<close> and \<open>timestamp\<close> are strings and whose \<open>readingTime\<close> is a number,
  each when present. The accessors give a field's value, or the default the ranker
  uses when the field is absent.
\<close>

definition field :: "json \<Rightarrow> string \<Rightarrow> json option" where
  "field p k = (case p of JObj d \<Rightarrow> map_of d k | _ \<Rightarrow> None)"

fun str_or_absent :: "json option \<Rightarrow> bool" where
  "str_or_absent None = True"
| "str_or_absent (Some (JStr s)) = True"
| "str_or_absent _ = False"

fun num_or_absent :: "json option \<Rightarrow> bool" where
  "num_or_absent None = True"
| "num_or_absent (Some (JNum r)) = True"
| "num_or_absent _ = False"

definition typed_page :: "json \<Rightarrow> bool" where
  "typed_page p \<longleftrightarrow>
     (case p of JObj d \<Rightarrow> True | _ \<Rightarrow> False)
     \<and> str_or_absent (field p ''url'') \<and> str_or_absent (field p ''title'')
     \<and> str_or_absent (field p ''domain'') \<and> str_or_absent (field p ''content'')
     \<and> str_or_absent (field p ''timestamp'') \<and> num_or_absent (field p ''readingTime'')"

definition str_field :: "json \<Rightarrow> string \<Rightarrow> string" where
  "str_field p k = (case field p k of Some (JStr s) \<Rightarrow> s | _ \<Rightarrow> [])"

definition reading_time :: "json \<Rightarrow> rat" where
  "reading_time p = (case field p ''readingTime'' of Some (JNum r) \<Rightarrow> r | _ \<Rightarrow> 0)"

definition content_length :: "json \<Rightarrow> nat" where
  "content_length p = length (str_field p ''content'')"

text \<open>
  Eligibility in the words of the specification: the URL is present, not empty and,
  trimmed, begins with \<open>http\<close>; and the reading time exceeds 0.5 or the content is
  longer than 100 characters.
\<close>

definition valid_url :: "json \<Rightarrow> bool" where
  "valid_url p \<longleftrightarrow>
     (case field p ''url'' of
        Some (JStr u) \<Rightarrow> u \<noteq> [] \<and> startswith (strip u) ''http''
      | _ \<Rightarrow> False)"

definition eligible :: "json \<Rightarrow> bool" where
  "eligible p \<longleftrightarrow> valid_url p \<and> (reading_time p > 1 / 2 \<or> content_length p > 100)"

text \<open>
  The order of the ranking: \<open>ranks_before p q\<close> when \<open>p\<close> has the longer reading
  time or, the reading times being equal, content at least as long.
\<close>

definition rank_key :: "json \<Rightarrow> rat \<times> nat" where
  "rank_key p = (reading_time p, content_length p)"

definition ranks_before :: "json \<Rightarrow> json \<Rightarrow> bool" where
  "ranks_before p q \<longleftrightarrow>
     reading_time p > reading_time q
     \<or> (reading_time p = reading_time q \<and> content_length p \<ge> content_length q)"

text \<open>
  The deduplication key in the words of the specification: the trimmed, lower-cased
  domain, a colon, and the trimmed, lower-cased title cut to 50 characters.
\<close>

definition page_key :: "json \<Rightarrow> string" where
  "page_key p =
     lower (strip (str_field p ''domain'')) @ '':'' @ take 50 (lower (strip (str_field p ''title'')))"

text \<open>Keeping only the first occurrence of each key: an entry stays, later entries
  with its key go.\<close>

function first_occurrences :: "('a \<Rightarrow> 'k) \<Rightarrow> 'a list \<Rightarrow> 'a list" where
  "first_occurrences f [] = []"
| "first_occurrences f (x # xs) = x # first_occurrences f (filter (\<lambda>y. f y \<noteq> f x) xs)"
  by pat_completeness auto

termination
  by (relation "measure (\<lambda>(f, xs). length xs)") (auto simp: less_Suc_eq_le)

text \<open>
  What \<open>sort_pages\<close> and \<open>dedup_loop\<close> compute on pages of the data model,
  where no key can fail: the stable descending sort by \<open>rank_key\<close>, and the pages
  whose key has not been seen.
\<close>

definition ranked :: "json list \<Rightarrow> json list" where
  "ranked ps = map snd (sorted_reverse (map (\<lambda>p. (rank_key p, p)) ps))"

fun unseen :: "('a \<Rightarrow> 'k) \<Rightarrow> 'k set \<Rightarrow> 'a list \<Rightarrow> 'a list" where
  "unseen f seen [] = []"
| "unseen f seen (x # xs) =
     (if f x \<in> seen then unseen f seen xs else x # unseen f (insert (f x) seen) xs)"

section \<open>Example records\<close>

text \<open>The pages of the specification's ranking examples.\<close>

definition page_skimmed :: json where
  "page_skimmed = JObj
     [(''url'', JStr ''https://a.example/one''), (''title'', JStr ''One''),
      (''domain'', JStr ''a.example''), (''content'', JStr (replicate 50 CHR ''x'')),
      (''readingTime'', JNum 0)]"

definition page_read :: json where
  "page_read = JObj
     [(''url'', JStr ''https://b.example/two''), (''title'', JStr ''Two''),
      (''domain'', JStr ''b.example''), (''content'', JStr []),
      (''readingTime'', JNum (6 / 10))]"

definition page_short_visit :: json where
  "page_short_visit = JObj
     [(''url'', JStr ''https://news.example/a?ref=1''), (''title'', JStr ''Daily report''),
      (''domain'', JStr ''news.example''), (''content'', JStr (replicate 120 CHR ''x'')),
      (''readingTime'', JNum 3)]"

definition page_long_visit :: json where
  "page_long_visit = JObj
     [(''url'', JStr ''https://news.example/a?ref=2''), (''title'', JStr ''Daily report''),
      (''domain'', JStr ''news.example''), (''content'', JStr (replicate 120 CHR ''x'')),
      (''readingTime'', JNum 7)]"

definition page_index0 :: json where
  "page_index0 = JObj
     [(''url'', JStr ''http://a.example/''), (''domain'', JStr ''a.example''),
      (''content'', JStr (replicate 20 CHR ''x'')), (''readingTime'', JNum 10)]"

definition page_index1 :: json where
  "page_index1 = JObj
     [(''url'', JStr ''http://b.example/''), (''domain'', JStr ''b.example''),
      (''content'', JStr (replicate 50 CHR ''x'')), (''readingTime'', JNum 10)]"

definition page_index2 :: json where
  "page_index2 = JObj
     [(''url'', JStr ''http://c.example/''), (''domain'', JStr ''c.example''),
      (''content'', JStr (replicate 100 CHR ''x'')), (''readingTime'', JNum 5)]"


section \<open>Properties of the content\<close>

text \<open>
  The estimated size of a list of blocks, a quarter of a unit per character, and the
  blocks a budget accepts: the longest prefix the loop can take, stopping at the first
  block that would go over.
\<close>

definition cost :: "string list \<Rightarrow> rat" where
  "cost blocks = (\<Sum>b \<leftarrow> blocks. of_nat (length b) * (1 / 4))"

fun accepted :: "rat \<Rightarrow> rat \<Rightarrow> string list \<Rightarrow> string list" where
  "accepted budget used [] = []"
| "accepted budget used (b # blocks) =
     (if used + of_nat (length b) * (1 / 4) > budget then []
      else b # accepted budget (used + of_nat (length b) * (1 / 4)) blocks)"

text \<open>The timestamp of a page of the data model, and its block.\<close>

definition timestamp_of :: "json \<Rightarrow> string" where
  "timestamp_of p = str_field p ''timestamp''"

definition block_of :: "(string \<Rightarrow> string option) \<Rightarrow> (json \<Rightarrow> string) \<Rightarrow> json \<Rightarrow> string" where
  "block_of hhmm render p = (case page_text hhmm render p of Inr t \<Rightarrow> t | Inl e \<Rightarrow> [])"

definition by_timestamp :: "json list \<Rightarrow> json list" where
  "by_timestamp ps = map snd (sort_key fst (map (\<lambda>p. (timestamp_of p, p)) ps))"

text \<open>The file \<open>save_digest\<close> leaves at the output path, if it returns.\<close>

definition artifact :: "error + world \<Rightarrow> string \<Rightarrow> string option" where
  "artifact res output_path = (case res of Inr w \<Rightarrow> files w output_path | Inl e \<Rightarrow> None)"

section \<open>Example visits and clocks\<close>

text \<open>
  Three visits, a stand-in for the two library functions on timestamps of the form
  \<open>YYYY-MM-DDTHH:MM:SS+00:00\<close> and on the numbers of the example, and three
  worlds: two in the same minute, one a minute later.
\<close>

definition hhmm_example :: "string \<Rightarrow> string option" where
  "hhmm_example s = (if length s \<ge> 16 then Some (take 5 (drop 11 s)) else None)"

definition render_example :: "json \<Rightarrow> string" where
  "render_example v = (case v of JNum r \<Rightarrow> (if r = 3 then ''3'' else ''12.5'') | _ \<Rightarrow> ''None'')"

definition visit_a :: json where
  "visit_a = JObj
     [(''title'', JStr ''A''), (''domain'', JStr ''a.example''),
      (''content'', JStr (replicate 20 CHR ''x'')),
      (''timestamp'', JStr ''2025-01-19T08:05:00Z'')]"

definition visit_b :: json where
  "visit_b = JObj
     [(''title'', JStr ''B''), (''domain'', JStr ''b.example''),
      (''content'', JStr (replicate 120 CHR ''y'')),
      (''timestamp'', JStr ''2025-01-19T09:30:00Z'')]"

definition visit_c :: json where
  "visit_c = JObj
     [(''title'', JStr ''C''), (''domain'', JStr ''c.example''),
      (''content'', JStr (replicate 20 CHR ''z'')),
      (''timestamp'', JStr ''2025-01-19T10:00:00Z'')]"

definition morning :: world where
  "morning = \<lparr>clock = \<lparr>year = 2025, month = 1, day = 20, hour = 7, minute = 30, second = 5\<rparr>,
              files = Map.empty\<rparr>"

definition morning_later :: world where
  "morning_later = \<lparr>clock = \<lparr>year = 2025, month = 1, day = 20, hour = 7, minute = 30, second = 50\<rparr>,
              files = Map.empty\<rparr>"

definition next_minute :: world where
  "next_minute = \<lparr>clock = \<lparr>year = 2025, month = 1, day = 20, hour = 7, minute = 31, second = 5\<rparr>,
              files = Map.empty\<rparr>"


section \<open>Stripping and key collection\<close>

lemma dropWhile_id_iff: "dropWhile P xs = xs \<longleftrightarrow> (xs = [] \<or> \<not> P (hd xs))"
proof (cases xs)
  case Nil
  then show ?thesis by simp
next
  case (Cons a list)
  have "length (dropWhile P list) \<le> length list"
    by (rule length_dropWhile_le)
  then have "dropWhile P list \<noteq> a # list"
    by auto
  with Cons show ?thesis by auto
qed

lemma strip_not_padded: "\<not> ws_padded (strip s)"
proof -
  define t where "t = dropWhile is_space s"
  define u where "u = dropWhile is_space (rev t)"
  have strip: "strip s = rev u"
    by (simp add: strip_def rstrip_def lstrip_def t_def u_def)
  show ?thesis
  proof (cases "u = []")
    case True
    then show ?thesis by (simp add: strip ws_padded_def)
  next
    case False
    then have hd_u: "\<not> is_space (hd u)"
      unfolding u_def by (rule hd_dropWhile)
    have split: "rev t = takeWhile is_space (rev t) @ u"
      by (simp add: u_def)
    from False have "t \<noteq> []"
      by (auto simp: u_def)
    then have hd_t: "\<not> is_space (hd t)"
      unfolding t_def by (rule hd_dropWhile)
    have "last (takeWhile is_space (rev t) @ u) = last u"
      using False by simp
    then have "last u = last (rev t)"
      using split by simp
    also have "\<dots> = hd t"
      using \<open>t \<noteq> []\<close> by (simp add: last_rev)
    finally have last_u: "\<not> is_space (last u)"
      using hd_t by simp
    show ?thesis
      using False hd_u last_u by (simp add: strip ws_padded_def hd_rev last_rev)
  qed
qed

lemma strip_fix_iff: "strip s = s \<longleftrightarrow> \<not> ws_padded s"
proof
  assume "strip s = s"
  then show "\<not> ws_padded s"
    using strip_not_padded [of s] by simp
next
  assume np: "\<not> ws_padded s"
  show "strip s = s"
  proof (cases "s = []")
    case True
    then show ?thesis by (simp add: strip_def rstrip_def lstrip_def)
  next
    case False
    with np have a: "\<not> is_space (hd s)" and b: "\<not> is_space (last s)"
      by (auto simp: ws_padded_def)
    from a have l: "dropWhile is_space s = s"
      by (simp add: dropWhile_id_iff)
    from b False have r: "dropWhile is_space (rev s) = rev s"
      by (simp add: dropWhile_id_iff hd_rev)
    show ?thesis
      by (simp add: strip_def rstrip_def lstrip_def l r)
  qed
qed

lemma strip_idem: "strip (strip s) = strip s"
  by (simp add: strip_fix_iff strip_not_padded)

lemma foldl_collect_obj:
  assumes "\<And>kv K. kv \<in> set kvs \<Longrightarrow> collect_keys (snd kv) K = K \<union> keys_of (snd kv)"
  shows "foldl (\<lambda>acc kv. collect_keys (snd kv) (insert (fst kv) acc)) K kvs
           = K \<union> (\<Union>kv \<in> set kvs. insert (fst kv) (keys_of (snd kv)))"
  using assms by (induction kvs arbitrary: K) auto

lemma foldl_collect_arr:
  assumes "\<And>x K. x \<in> set xs \<Longrightarrow> collect_keys x K = K \<union> keys_of x"
  shows "foldl (\<lambda>acc item. collect_keys item acc) K xs = K \<union> (\<Union>x \<in> set xs. keys_of x)"
  using assms by (induction xs arbitrary: K) auto

lemma collect_keys_eq: "collect_keys j K = K \<union> keys_of j"
proof (induction j arbitrary: K)
  case (JArr xs)
  then show ?case by (simp add: foldl_collect_arr)
next
  case (JObj kvs)
  have "collect_keys (snd kv) K = K \<union> keys_of (snd kv)" if "kv \<in> set kvs" for kv K
    using JObj [of kv "snd kv" K] that by (cases kv) auto
  then show ?case by (simp add: foldl_collect_obj)
qed simp_all

lemma some_key_iff: "some_key P j \<longleftrightarrow> (\<exists>k \<in> keys_of j. P k)"
proof (induction j)
  case (JArr xs)
  then show ?case by (auto simp: list_ex_iff)
next
  case (JObj kvs)
  have "some_key P (snd kv) \<longleftrightarrow> (\<exists>k \<in> keys_of (snd kv). P k)" if "kv \<in> set kvs" for kv
    using JObj [of kv "snd kv"] that by (cases kv) auto
  then show ?case by (auto simp: list_ex_iff)
qed simp_all

lemma space_padded_iff: "startswith k '' '' \<or> endswith k '' '' \<longleftrightarrow> space_padded k"
proof (cases "k = []")
  case True
  then show ?thesis by (simp add: startswith_def endswith_def space_padded_def)
next
  case False
  then obtain c cs where k: "k = c # cs" by (cases k) auto
  from False obtain bs b where k': "k = bs @ [b]" by (cases k rule: rev_cases) auto
  have 1: "startswith k '' '' \<longleftrightarrow> hd k = CHR '' ''"
    by (simp add: k startswith_def)
  have 2: "endswith k '' '' \<longleftrightarrow> last k = CHR '' ''"
    by (simp add: k' endswith_def)
  show ?thesis using False by (simp add: 1 2 space_padded_def)
qed

lemma needs_repair_iff: "needs_repair data \<longleftrightarrow> some_key space_padded data"
  by (simp add: needs_repair_def collect_keys_eq some_key_iff space_padded_iff)

section \<open>Building dicts\<close>

lemma dict_set_fresh: "k \<notin> fst ` set d \<Longrightarrow> dict_set d k v = d @ [(k, v)]"
  by (induction d) auto

lemma dict_set_map_fst: "set (map fst (dict_set d k v)) = insert k (set (map fst d))"
  by (induction d k v rule: dict_set.induct) (simp_all add: insert_commute)

lemma dict_set_keys: "fst ` set (dict_set d k v) = insert k (fst ` set d)"
  using dict_set_map_fst [of d k v] by simp

lemma dict_set_distinct: "distinct (map fst d) \<Longrightarrow> distinct (map fst (dict_set d k v))"
proof (induction d)
  case Nil
  then show ?case by simp
next
  case (Cons a d)
  obtain k' v' where a: "a = (k', v')" by (cases a)
  have "k' \<notin> fst ` set (dict_set d k v)" if "k' \<noteq> k"
    using Cons.prems that by (simp add: a dict_set_keys)
  with Cons show ?case by (auto simp: a)
qed

lemma dict_set_subset: "set (dict_set d k v) \<subseteq> insert (k, v) (set d)"
  by (induction d) (auto split: if_splits)

lemma foldl_dict_set_distinct:
  "distinct (map fst d) \<Longrightarrow> distinct (map fst (foldl (\<lambda>d kv. dict_set d (fst kv) (snd kv)) d items))"
  by (induction items arbitrary: d) (simp_all add: dict_set_distinct)

lemma foldl_dict_set_subset:
  "set (foldl (\<lambda>d kv. dict_set d (fst kv) (snd kv)) d items) \<subseteq> set d \<union> set items"
proof (induction items arbitrary: d)
  case Nil
  then show ?case by simp
next
  case (Cons a items)
  have "set (dict_set d (fst a) (snd a)) \<subseteq> insert a (set d)"
    using dict_set_subset [of d "fst a" "snd a"] by simp
  with Cons [of "dict_set d (fst a) (snd a)"] show ?case by auto
qed

lemma foldl_dict_set_id:
  "distinct (map fst (d @ items)) \<Longrightarrow>
     foldl (\<lambda>d kv. dict_set d (fst kv) (snd kv)) d items = d @ items"
proof (induction items arbitrary: d)
  case Nil
  then show ?case by simp
next
  case (Cons a items)
  from Cons.prems have fresh: "fst a \<notin> fst ` set d" by auto
  have step: "dict_set d (fst a) (snd a) = d @ [a]"
    using dict_set_fresh [OF fresh, of "snd a"] by simp
  from Cons.prems have "distinct (map fst ((d @ [a]) @ items))" by simp
  from Cons.IH [OF this] show ?case by (simp add: step)
qed

lemma dict_of_items_distinct: "distinct (map fst (dict_of_items items))"
  by (simp add: dict_of_items_def foldl_dict_set_distinct)

lemma dict_of_items_subset: "set (dict_of_items items) \<subseteq> set items"
  using foldl_dict_set_subset [of "[]" items] by (simp add: dict_of_items_def)

lemma dict_of_items_id: "distinct (map fst items) \<Longrightarrow> dict_of_items items = items"
  using foldl_dict_set_id [of "[]" items] by (simp add: dict_of_items_def)

section \<open>Repair: idempotence\<close>

lemma normalize_good: "wf_json (normalize_json_keys j) \<and> normalized (normalize_json_keys j)"
proof (induction j)
  case (JArr xs)
  then show ?case by (simp add: list_all_iff)
next
  case (JObj kvs)
  define items where "items = map (\<lambda>kv. (strip (fst kv), normalize_json_keys (snd kv)))
         (filter (\<lambda>kv. strip (fst kv) \<noteq> []) kvs)"
  have ih: "wf_json (normalize_json_keys (snd kv)) \<and> normalized (normalize_json_keys (snd kv))"
    if "kv \<in> set kvs" for kv
    using JObj [of kv "snd kv"] that by (cases kv) auto
  have item: "fst it \<noteq> [] \<and> \<not> ws_padded (fst it) \<and> wf_json (snd it) \<and> normalized (snd it)"
    if "it \<in> set items" for it
    using that ih by (auto simp: items_def strip_not_padded)
  have "it \<in> set items" if "it \<in> set (dict_of_items items)" for it
    using that dict_of_items_subset [of items] by auto
  with item have "fst it \<noteq> [] \<and> \<not> ws_padded (fst it) \<and> wf_json (snd it) \<and> normalized (snd it)"
    if "it \<in> set (dict_of_items items)" for it
    using that by blast
  then show ?case
    by (simp add: items_def [symmetric] dict_of_items_distinct list_all_iff)
next
  case (JStr s)
  then show ?case by (simp add: strip_not_padded)
qed simp_all

lemma normalize_fix: "wf_json j \<Longrightarrow> normalized j \<Longrightarrow> normalize_json_keys j = j"
proof (induction j)
  case (JArr xs)
  then have "map normalize_json_keys xs = map (\<lambda>x. x) xs"
    by (intro map_cong) (auto simp: list_all_iff)
  then show ?case by simp
next
  case (JObj kvs)
  from JObj.prems have keys: "strip (fst kv) = fst kv \<and> fst kv \<noteq> []" if "kv \<in> set kvs" for kv
    using that by (auto simp: list_all_iff strip_fix_iff)
  have vals: "normalize_json_keys (snd kv) = snd kv" if "kv \<in> set kvs" for kv
  proof -
    from JObj.prems that have "wf_json (snd kv)" and "normalized (snd kv)"
      by (auto simp: list_all_iff)
    with JObj.IH [of kv "snd kv"] that show ?thesis
      by (cases kv) auto
  qed
  have f: "filter (\<lambda>kv. strip (fst kv) \<noteq> []) kvs = kvs"
    using keys by (simp add: filter_id_conv)
  have "map (\<lambda>kv. (strip (fst kv), normalize_json_keys (snd kv))) kvs = map (\<lambda>kv. kv) kvs"
    by (intro map_cong) (auto simp: keys vals)
  then have m: "map (\<lambda>kv. (strip (fst kv), normalize_json_keys (snd kv))) kvs = kvs"
    by simp
  from JObj.prems have "distinct (map fst kvs)" by simp
  then show ?case by (simp add: f m dict_of_items_id)
next
  case (JStr s)
  then show ?case by (simp add: strip_fix_iff)
qed simp_all

lemma normalized_no_space_key: "normalized j \<Longrightarrow> \<not> some_key space_padded j"
proof (induction j)
  case (JArr xs)
  then show ?case by (auto simp: list_all_iff list_ex_iff)
next
  case (JObj kvs)
  have "\<not> some_key space_padded (snd kv)" if "kv \<in> set kvs" for kv
    using JObj.IH [of kv "snd kv"] JObj.prems that by (cases kv) (auto simp: list_all_iff)
  moreover have "\<not> space_padded (fst kv)" if "kv \<in> set kvs" for kv
  proof -
    from JObj.prems that have "\<not> ws_padded (fst kv)" by (auto simp: list_all_iff)
    then show ?thesis by (auto simp: ws_padded_def space_padded_def is_space_def)
  qed
  ultimately show ?case by (auto simp: list_ex_iff)
qed simp_all

lemma validate_ok:
  "''date'' \<in> fst ` set kvs \<Longrightarrow> ''pages'' \<in> fst ` set kvs \<Longrightarrow> validate (JObj kvs) = Inr (JObj kvs)"
  by (simp add: validate_def)

text \<open>
  C7. Repair is idempotent. Normalizing twice is normalizing once, and the loader's test
  is false on every normalized output. A record that is already normalized is a fixed
  point of \<open>normalize_json_keys\<close>, the test is false on it, and loading it
  returns it as parsed, the only effect being the read: no backup, no write, no message.
\<close>

theorem repair_idempotent:
  "normalize_json_keys (normalize_json_keys x) = normalize_json_keys x
   \<and> \<not> needs_repair (normalize_json_keys x)
   \<and> (wf_json x \<and> normalized x \<longrightarrow>
        normalize_json_keys x = x
        \<and> \<not> needs_repair x
        \<and> (\<forall>loads dumps filepath fs raw kvs.
             fs filepath = Some raw \<and> lower (path_suffix filepath) = ''.json''
             \<and> loads raw = Inr x \<and> x = JObj kvs
             \<and> ''date'' \<in> fst ` set kvs \<and> ''pages'' \<in> fst ` set kvs
             \<longrightarrow> load_browsing_data loads dumps filepath fs = (Inr x, [Read filepath])))"
proof (intro conjI impI allI)
  show "normalize_json_keys (normalize_json_keys x) = normalize_json_keys x"
    using normalize_good [of x] by (simp add: normalize_fix)
  show "\<not> needs_repair (normalize_json_keys x)"
    using normalize_good [of x] by (simp add: needs_repair_iff normalized_no_space_key)
next
  assume "wf_json x \<and> normalized x"
  then show "normalize_json_keys x = x" by (simp add: normalize_fix)
next
  assume "wf_json x \<and> normalized x"
  then show "\<not> needs_repair x" by (simp add: needs_repair_iff normalized_no_space_key)
next
  fix loads :: "string \<Rightarrow> string + json" and dumps :: "json \<Rightarrow> string"
    and filepath fs raw kvs
  assume good: "wf_json x \<and> normalized x"
    and h: "fs filepath = Some raw \<and> lower (path_suffix filepath) = ''.json''
             \<and> loads raw = Inr x \<and> x = JObj kvs
             \<and> ''date'' \<in> fst ` set kvs \<and> ''pages'' \<in> fst ` set kvs"
  from good have nr: "\<not> needs_repair x"
    by (simp add: needs_repair_iff normalized_no_space_key)
  from h have v: "validate x = Inr x"
    by (simp add: validate_ok)
  show "load_browsing_data loads dumps filepath fs = (Inr x, [Read filepath])"
    using h nr v by (simp add: load_browsing_data_def)
qed

section \<open>Repair: detection, backup and overwrite\<close>

lemma path_name_suffix: "\<exists>dir. p = dir @ path_name p"
proof -
  let ?P = "\<lambda>c. c \<noteq> CHR ''/''"
  have "rev (dropWhile ?P (rev p)) @ rev (takeWhile ?P (rev p))
          = rev (takeWhile ?P (rev p) @ dropWhile ?P (rev p))"
    by (simp only: rev_append)
  also have "\<dots> = p"
    by (simp only: takeWhile_dropWhile_id rev_rev_ident)
  finally have "p = rev (dropWhile ?P (rev p)) @ path_name p"
    by (simp add: path_name_def)
  then show ?thesis ..
qed

lemma path_suffix_suffix: "\<exists>stem. p = stem @ path_suffix p"
proof -
  obtain dir where dir: "p = dir @ path_name p"
    using path_name_suffix by blast
  show ?thesis
  proof (cases "path_suffix p = []")
    case True
    then show ?thesis by simp
  next
    case False
    then obtain i where "path_suffix p = drop i (path_name p)"
      by (auto simp: path_suffix_def Let_def split: option.splits if_splits)
    then have "p = (dir @ take i (path_name p)) @ path_suffix p"
      using dir by simp
    then show ?thesis ..
  qed
qed

lemma with_suffix_stem: "\<exists>stem. p = stem @ path_suffix p \<and> with_suffix p sfx = stem @ sfx"
proof -
  obtain stem where stem: "p = stem @ path_suffix p"
    using path_suffix_suffix by blast
  have "take (length p - length (path_suffix p)) p = stem"
    by (subst (1 3) stem) simp
  then have "with_suffix p sfx = stem @ sfx"
    using stem by (auto simp: with_suffix_def Let_def)
  with stem show ?thesis by blast
qed

lemma backup_differs:
  assumes "lower (path_suffix p) = ''.json''"
  shows "with_suffix p ''.json.bak'' \<noteq> p"
proof -
  obtain stem where stem: "p = stem @ path_suffix p" "with_suffix p ''.json.bak'' = stem @ ''.json.bak''"
    using with_suffix_stem by blast
  have "length (lower (path_suffix p)) = 5"
    by (simp add: assms)
  then have "length (path_suffix p) = 5"
    by (simp add: lower_def)
  then have "length p = length stem + 5"
    by (subst stem(1)) simp
  moreover have "length (with_suffix p ''.json.bak'') = length stem + 9"
    by (simp add: stem(2))
  ultimately show ?thesis by auto
qed

text \<open>
  What the test of lines 249 to 252 detects. For a file that exists, is named
  \<open>.json\<close> and parses, the loader repairs (backup, then overwrite with the
  normalized record) if and only if some key, at any depth, begins or ends with the
  space character U+0020; otherwise the parsed structure goes to validation as it is
  and nothing is written.
\<close>

lemma repair_iff_space_padded_key:
  assumes "fs filepath = Some raw"
    and "lower (path_suffix filepath) = ''.json''"
    and "loads raw = Inr data"
  shows "load_browsing_data loads dumps filepath fs =
           (if some_key space_padded data
            then (validate (normalize_json_keys data),
                  [Read filepath,
                   Print Malformed_JSON_detected,
                   Copy filepath (with_suffix filepath ''.json.bak''),
                   Print (Original_saved_as (path_name (with_suffix filepath ''.json.bak''))),
                   Write filepath (dumps (normalize_json_keys data)),
                   Print (Repaired_JSON_saved_to (path_name filepath))])
            else (validate data, [Read filepath]))"
  using assms by (simp add: load_browsing_data_def needs_repair_iff Let_def)

lemma load_trace_cases:
  assumes "load_browsing_data loads dumps filepath fs = (res, evs)"
  shows "evs = [] \<or> evs = [Read filepath]
         \<or> (lower (path_suffix filepath) = ''.json'' \<and> fs filepath \<noteq> None
            \<and> (\<exists>c. evs =
                  [Read filepath,
                   Print Malformed_JSON_detected,
                   Copy filepath (with_suffix filepath ''.json.bak''),
                   Print (Original_saved_as (path_name (with_suffix filepath ''.json.bak''))),
                   Write filepath c,
                   Print (Repaired_JSON_saved_to (path_name filepath))]))"
  using assms
  by (auto simp: load_browsing_data_def Let_def split: option.splits if_splits sum.splits)

lemma write_in_six:
  assumes "pre @ Write p c # post = [Read f, Print m1, Copy f b, Print m2, Write f c', Print m3]"
  shows "pre = [Read f, Print m1, Copy f b, Print m2] \<and> p = f \<and> c = c'"
  using assms by (auto simp: append_eq_Cons_conv Cons_eq_append_conv)

text \<open>
  C8. Every write the loader performs is a write to the input path, and the events
  before it hold the copy of the input to the backup path and no write: in the state
  just before the write the backup holds the original content, the input is still
  untouched, and the backup path differs from the input path (it is the input path
  with its suffix replaced by \<open>.json.bak\<close>, so in the same directory). This
  holds whatever the loader then returns or raises; after all its effects the backup
  still holds the original content.
\<close>

theorem backup_before_overwrite:
  assumes "load_browsing_data loads dumps filepath fs = (res, evs)"
    and "evs = pre @ Write p c # post"
  shows "p = filepath
         \<and> Copy filepath (with_suffix filepath ''.json.bak'') \<in> set pre
         \<and> (\<forall>q d. Write q d \<notin> set pre)
         \<and> with_suffix filepath ''.json.bak'' \<noteq> filepath
         \<and> fs filepath \<noteq> None
         \<and> run fs pre (with_suffix filepath ''.json.bak'') = fs filepath
         \<and> run fs pre filepath = fs filepath
         \<and> run fs evs (with_suffix filepath ''.json.bak'') = fs filepath
         \<and> (\<exists>stem sfx. filepath = stem @ sfx \<and> lower sfx = ''.json''
               \<and> with_suffix filepath ''.json.bak'' = stem @ ''.json.bak'')"
proof -
  let ?b = "with_suffix filepath ''.json.bak''"
  from load_trace_cases [OF assms(1)] assms(2)
  obtain c' where sfx: "lower (path_suffix filepath) = ''.json''" and ex: "fs filepath \<noteq> None"
    and evs: "evs = [Read filepath, Print Malformed_JSON_detected, Copy filepath ?b,
                   Print (Original_saved_as (path_name ?b)), Write filepath c',
                   Print (Repaired_JSON_saved_to (path_name filepath))]"
    by (auto simp: append_eq_Cons_conv)
  from evs assms(2) have pre: "pre = [Read filepath, Print Malformed_JSON_detected, Copy filepath ?b,
                   Print (Original_saved_as (path_name ?b))]" and p: "p = filepath"
    using write_in_six [of pre p c post] by auto
  have ne: "?b \<noteq> filepath"
    using sfx by (rule backup_differs)
  obtain stem where stem: "filepath = stem @ path_suffix filepath" "?b = stem @ ''.json.bak''"
    using with_suffix_stem by blast
  have sib: "\<exists>stem sfx. filepath = stem @ sfx \<and> lower sfx = ''.json'' \<and> ?b = stem @ ''.json.bak''"
    using stem sfx by blast
  have r1: "run fs pre ?b = fs filepath"
    by (simp add: pre run_def)
  have r2: "run fs pre filepath = fs filepath"
    using ne by (simp add: pre run_def)
  have r3: "run fs evs ?b = fs filepath"
    using ne by (simp add: evs run_def)
  show ?thesis
    using p ne ex r1 r2 r3 sib by (simp add: pre)
qed

lemma sfx_day: "path_suffix ''day.json'' = ''.json''"
  by (simp add: path_suffix_def path_name_def rfind_def)

lemma bak_day: "with_suffix ''day.json'' ''.json.bak'' = ''day.json.bak''"
  by (simp add: with_suffix_def sfx_day)

lemma repair_of_space_padded_key_example:
  "[''day.json'' \<mapsto> ''raw''] ''day.json'' = Some ''raw''
   \<and> lower (path_suffix ''day.json'') = ''.json''
   \<and> some_key space_padded (JObj [('' date '', JStr ''2026-02-06 ''), (''pages'', JArr [])])
   \<and> load_browsing_data
        (\<lambda>raw. Inr (JObj [('' date '', JStr ''2026-02-06 ''), (''pages'', JArr [])]))
        (\<lambda>j. ''repaired'') ''day.json'' [''day.json'' \<mapsto> ''raw'']
       = (Inr (JObj [(''date'', JStr ''2026-02-06''), (''pages'', JArr [])]),
          [Read ''day.json'',
           Print Malformed_JSON_detected,
           Copy ''day.json'' ''day.json.bak'',
           Print (Original_saved_as ''day.json.bak''),
           Write ''day.json'' ''repaired'',
           Print (Repaired_JSON_saved_to ''day.json'')])"
proof -
  let ?data = "JObj [('' date '', JStr ''2026-02-06 ''), (''pages'', JArr [])]"
  have h1: "[''day.json'' \<mapsto> ''raw''] ''day.json'' = Some ''raw''" by simp
  have h2: "lower (path_suffix ''day.json'') = ''.json''"
    by (simp add: sfx_day lower_def lower_char_def)
  have h3: "(\<lambda>raw::string. (Inr ?data :: string + json)) ''raw'' = Inr ?data" by simp
  have k: "some_key space_padded ?data"
    by (simp add: space_padded_def)
  have n: "normalize_json_keys ?data = JObj [(''date'', JStr ''2026-02-06''), (''pages'', JArr [])]"
    by (simp add: strip_def lstrip_def rstrip_def is_space_def dict_of_items_def)
  have v: "validate (JObj [(''date'', JStr ''2026-02-06''), (''pages'', JArr [])])
             = Inr (JObj [(''date'', JStr ''2026-02-06''), (''pages'', JArr [])])"
    by (simp add: validate_def)
  have nm: "path_name ''day.json.bak'' = ''day.json.bak''" "path_name ''day.json'' = ''day.json''"
    by (simp_all add: path_name_def)
  show ?thesis
    using repair_iff_space_padded_key
      [where fs = "[''day.json'' \<mapsto> ''raw'']" and filepath = "''day.json''"
         and loads = "\<lambda>raw. Inr ?data" and dumps = "\<lambda>j. ''repaired''", OF h1 h2 h3]
      h1 h2 k
    by (simp add: n v bak_day nm del: normalize_json_keys.simps)
qed

text \<open>
  C6. Repair is required when some key, at any depth, has leading or trailing
  whitespace, and the loader's own comment says it detects whitespace in keys; the test
  looks for the space character only. A record whose key \<open>date\<close> begins with a
  tab (U+0009) has a key with leading whitespace, yet the loader does not repair it: it
  goes to validation as it is, and validation misses \<open>date\<close>. The repair itself
  strips the tab: normalizing this record gives one that validates, and the loader does
  repair the same key as soon as another key of the record is padded with a space.
\<close>

theorem repair_misses_tab_padded_key:
  "some_key ws_padded (JObj [(CHR 0x09 # ''date'', JStr ''2026-02-06''), (''pages'', JArr [])])
   \<and> load_browsing_data
        (\<lambda>raw. Inr (JObj [(CHR 0x09 # ''date'', JStr ''2026-02-06''), (''pages'', JArr [])]))
        (\<lambda>j. ''repaired'') ''day.json'' [''day.json'' \<mapsto> ''raw'']
       = (Inl (ValueError (JSON_missing_required_keys {''date''} {CHR 0x09 # ''date'', ''pages''})),
          [Read ''day.json''])
   \<and> normalize_json_keys (JObj [(CHR 0x09 # ''date'', JStr ''2026-02-06''), (''pages'', JArr [])])
       = JObj [(''date'', JStr ''2026-02-06''), (''pages'', JArr [])]
   \<and> validate (JObj [(''date'', JStr ''2026-02-06''), (''pages'', JArr [])])
       = Inr (JObj [(''date'', JStr ''2026-02-06''), (''pages'', JArr [])])
   \<and> load_browsing_data
        (\<lambda>raw. Inr (JObj [(CHR 0x09 # ''date'', JStr ''2026-02-06''), (''pages '', JArr [])]))
        (\<lambda>j. ''repaired'') ''day.json'' [''day.json'' \<mapsto> ''raw'']
       = (Inr (JObj [(''date'', JStr ''2026-02-06''), (''pages'', JArr [])]),
          [Read ''day.json'',
           Print Malformed_JSON_detected,
           Copy ''day.json'' ''day.json.bak'',
           Print (Original_saved_as ''day.json.bak''),
           Write ''day.json'' ''repaired'',
           Print (Repaired_JSON_saved_to ''day.json'')])"
proof -
  let ?data = "JObj [(CHR 0x09 # ''date'', JStr ''2026-02-06''), (''pages'', JArr [])]"
  let ?both = "JObj [(CHR 0x09 # ''date'', JStr ''2026-02-06''), (''pages '', JArr [])]"
  let ?good = "JObj [(''date'', JStr ''2026-02-06''), (''pages'', JArr [])]"
  have k: "some_key ws_padded ?data"
    by (simp add: ws_padded_def is_space_def)
  have h2: "lower (path_suffix ''day.json'') = ''.json''"
    by (simp add: sfx_day lower_def lower_char_def)
  have nr: "\<not> needs_repair ?data"
    by (simp add: needs_repair_def startswith_def endswith_def)
  have v: "validate ?data
             = Inl (ValueError (JSON_missing_required_keys {''date''} {CHR 0x09 # ''date'', ''pages''}))"
    by (auto simp: validate_def Let_def)
  have alone: "load_browsing_data (\<lambda>raw. Inr ?data) (\<lambda>j. ''repaired'') ''day.json''
                 [''day.json'' \<mapsto> ''raw'']
       = (Inl (ValueError (JSON_missing_required_keys {''date''} {CHR 0x09 # ''date'', ''pages''})),
          [Read ''day.json''])"
    using h2 nr v by (simp add: load_browsing_data_def)
  have n: "normalize_json_keys ?data = ?good"
    by (simp add: strip_def lstrip_def rstrip_def is_space_def dict_of_items_def)
  have n': "normalize_json_keys ?both = ?good"
    by (simp add: strip_def lstrip_def rstrip_def is_space_def dict_of_items_def)
  have vg: "validate ?good = Inr ?good"
    by (simp add: validate_def)
  have r: "needs_repair ?both"
    by (simp add: needs_repair_iff space_padded_def)
  have nm: "path_name ''day.json.bak'' = ''day.json.bak''" "path_name ''day.json'' = ''day.json''"
    by (simp_all add: path_name_def)
  have sibling: "load_browsing_data (\<lambda>raw. Inr ?both) (\<lambda>j. ''repaired'') ''day.json''
                 [''day.json'' \<mapsto> ''raw'']
       = (Inr ?good,
          [Read ''day.json'',
           Print Malformed_JSON_detected,
           Copy ''day.json'' ''day.json.bak'',
           Print (Original_saved_as ''day.json.bak''),
           Write ''day.json'' ''repaired'',
           Print (Repaired_JSON_saved_to ''day.json'')])"
    using h2 r
    by (simp add: load_browsing_data_def Let_def n' vg bak_day nm del: normalize_json_keys.simps)
  from k alone n vg sibling show ?thesis
    by (intro conjI)
qed

theorem repair_idempotent_witness:
  "wf_json (JObj [(''date'', JStr ''2025-01-19''),
                  (''pages'', JArr [JObj [(''url'', JStr ''https://a.org/x''), (''title'', JStr ''A b'')]])])
   \<and> normalized (JObj [(''date'', JStr ''2025-01-19''),
                  (''pages'', JArr [JObj [(''url'', JStr ''https://a.org/x''), (''title'', JStr ''A b'')]])])
   \<and> normalize_json_keys (JObj [(''date'', JStr ''2025-01-19''),
                  (''pages'', JArr [JObj [(''url'', JStr ''https://a.org/x''), (''title'', JStr ''A b'')]])])
       = JObj [(''date'', JStr ''2025-01-19''),
                  (''pages'', JArr [JObj [(''url'', JStr ''https://a.org/x''), (''title'', JStr ''A b'')]])]
   \<and> load_browsing_data
        (\<lambda>raw. Inr (JObj [(''date'', JStr ''2025-01-19''),
                  (''pages'', JArr [JObj [(''url'', JStr ''https://a.org/x''), (''title'', JStr ''A b'')]])]))
        (\<lambda>j. ''repaired'') ''day.json'' [''day.json'' \<mapsto> ''raw'']
       = (Inr (JObj [(''date'', JStr ''2025-01-19''),
                  (''pages'', JArr [JObj [(''url'', JStr ''https://a.org/x''), (''title'', JStr ''A b'')]])]),
          [Read ''day.json''])"
proof -
  let ?x = "JObj [(''date'', JStr ''2025-01-19''),
                  (''pages'', JArr [JObj [(''url'', JStr ''https://a.org/x''), (''title'', JStr ''A b'')]])]"
  have w: "wf_json ?x" by simp
  have n: "normalized ?x" by (simp add: ws_padded_def is_space_def)
  have h2: "lower (path_suffix ''day.json'') = ''.json''"
    by (simp add: sfx_day lower_def lower_char_def)
  from repair_idempotent [of ?x] w n
  have nfix: "normalize_json_keys ?x = ?x"
    and ld: "\<And>loads dumps filepath fs raw kvs.
             fs filepath = Some raw \<and> lower (path_suffix filepath) = ''.json''
             \<and> loads raw = Inr ?x \<and> ?x = JObj kvs
             \<and> ''date'' \<in> fst ` set kvs \<and> ''pages'' \<in> fst ` set kvs
             \<Longrightarrow> load_browsing_data loads dumps filepath fs = (Inr ?x, [Read filepath])"
    by blast+
  have "load_browsing_data (\<lambda>raw. Inr ?x) (\<lambda>j. ''repaired'') ''day.json'' [''day.json'' \<mapsto> ''raw'']
          = (Inr ?x, [Read ''day.json''])"
    by (rule ld [where raw = "''raw''" and kvs = "[(''date'', JStr ''2025-01-19''),
                  (''pages'', JArr [JObj [(''url'', JStr ''https://a.org/x''), (''title'', JStr ''A b'')]])]"])
       (simp add: h2)
  with w n nfix show ?thesis by simp
qed

theorem backup_before_overwrite_witness:
  "load_browsing_data
        (\<lambda>raw. Inr (JObj [('' date '', JStr ''2026-02-06 ''), (''pages'', JArr [])]))
        (\<lambda>j. ''repaired'') ''day.json'' [''day.json'' \<mapsto> ''raw'']
       = (Inr (JObj [(''date'', JStr ''2026-02-06''), (''pages'', JArr [])]),
          [Read ''day.json'', Print Malformed_JSON_detected, Copy ''day.json'' ''day.json.bak'',
           Print (Original_saved_as ''day.json.bak'')]
          @ Write ''day.json'' ''repaired'' # [Print (Repaired_JSON_saved_to ''day.json'')])
   \<and> run [''day.json'' \<mapsto> ''raw'']
         [Read ''day.json'', Print Malformed_JSON_detected, Copy ''day.json'' ''day.json.bak'',
          Print (Original_saved_as ''day.json.bak'')] ''day.json.bak'' = Some ''raw''
   \<and> Copy ''day.json'' ''day.json.bak''
        \<in> set [Read ''day.json'', Print Malformed_JSON_detected, Copy ''day.json'' ''day.json.bak'',
          Print (Original_saved_as ''day.json.bak'')]"
proof -
  let ?data = "JObj [('' date '', JStr ''2026-02-06 ''), (''pages'', JArr [])]"
  let ?pre = "[Read ''day.json'', Print Malformed_JSON_detected, Copy ''day.json'' ''day.json.bak'',
          Print (Original_saved_as ''day.json.bak'')]"
  have h2: "lower (path_suffix ''day.json'') = ''.json''"
    by (simp add: sfx_day lower_def lower_char_def)
  have k: "needs_repair ?data"
    by (simp add: needs_repair_iff space_padded_def)
  have n: "normalize_json_keys ?data = JObj [(''date'', JStr ''2026-02-06''), (''pages'', JArr [])]"
    by (simp add: strip_def lstrip_def rstrip_def is_space_def dict_of_items_def)
  have v: "validate (JObj [(''date'', JStr ''2026-02-06''), (''pages'', JArr [])])
             = Inr (JObj [(''date'', JStr ''2026-02-06''), (''pages'', JArr [])])"
    by (simp add: validate_def)
  have nm: "path_name ''day.json.bak'' = ''day.json.bak''" "path_name ''day.json'' = ''day.json''"
    by (simp_all add: path_name_def)
  have ld: "load_browsing_data (\<lambda>raw. Inr ?data) (\<lambda>j. ''repaired'') ''day.json'' [''day.json'' \<mapsto> ''raw'']
       = (Inr (JObj [(''date'', JStr ''2026-02-06''), (''pages'', JArr [])]),
          ?pre @ Write ''day.json'' ''repaired'' # [Print (Repaired_JSON_saved_to ''day.json'')])"
    using h2 k by (simp add: load_browsing_data_def Let_def n v bak_day nm del: normalize_json_keys.simps)
  from backup_before_overwrite [OF ld refl]
  show ?thesis using ld by (simp add: bak_day)
qed

section \<open>Loading: the suffix check\<close>

text \<open>
  C10. A path that exists and whose suffix, lower-cased, is not \<open>.json\<close> makes the
  loader raise the \<open>ValueError\<close> of line 240, whatever the file holds and whatever
  the parser would make of it; no effect has happened by then, the file has not been
  read.
\<close>

theorem load_rejects_other_suffix:
  assumes "fs filepath \<noteq> None" and "lower (path_suffix filepath) \<noteq> ''.json''"
  shows "load_browsing_data loads dumps filepath fs =
           (Inl (ValueError (Expected_JSON_file (path_suffix filepath))), [])"
  using assms by (auto simp: load_browsing_data_def)

theorem load_rejects_other_suffix_witness:
  "[''day.txt'' \<mapsto> ''{}''] ''day.txt'' \<noteq> None
   \<and> lower (path_suffix ''day.txt'') \<noteq> ''.json''
   \<and> load_browsing_data
        (\<lambda>raw. Inr (JObj [(''date'', JStr ''2025-01-19''), (''pages'', JArr [])]))
        (\<lambda>j. ''{}'') ''day.txt'' [''day.txt'' \<mapsto> ''{}'']
       = (Inl (ValueError (Expected_JSON_file ''.txt'')), [])"
proof -
  have sfx: "path_suffix ''day.txt'' = ''.txt''"
    by (simp add: path_suffix_def path_name_def rfind_def)
  have h1: "[''day.txt'' \<mapsto> ''{}''] ''day.txt'' \<noteq> None" by simp
  have h2: "lower (path_suffix ''day.txt'') \<noteq> ''.json''"
    by (simp add: sfx lower_def)
  show ?thesis
    using load_rejects_other_suffix
      [where fs = "[''day.txt'' \<mapsto> ''{}'']" and filepath = "''day.txt''",
       OF h1 h2] h1 h2
    by (simp add: sfx)
qed

section \<open>Top pages: filter, order, deduplication\<close>

lemma bind_err_Inr [simp]: "bind_err (Inr x) f = f x"
  by (simp add: bind_err_def)

lemma bind_err_Inl [simp]: "bind_err (Inl e) f = Inl e"
  by (simp add: bind_err_def)

lemma typed_page_obj: "typed_page p \<Longrightarrow> \<exists>d. p = JObj d"
  by (cases p) (auto simp: typed_page_def)

lemma str_or_absent_cases:
  "str_or_absent v \<Longrightarrow> v = None \<or> (\<exists>s. v = Some (JStr s))"
  by (cases v rule: str_or_absent.cases) auto

lemma num_or_absent_cases:
  "num_or_absent v \<Longrightarrow> v = None \<or> (\<exists>r. v = Some (JNum r))"
  by (cases v rule: num_or_absent.cases) auto

lemma is_valid_page_typed:
  assumes "typed_page p"
  shows "is_valid_page p = Inr (eligible p)"
proof -
  obtain d where p: "p = JObj d"
    using assms typed_page_obj by blast
  from assms have u: "map_of d ''url'' = None \<or> (\<exists>s. map_of d ''url'' = Some (JStr s))"
    and c: "map_of d ''content'' = None \<or> (\<exists>s. map_of d ''content'' = Some (JStr s))"
    and r: "map_of d ''readingTime'' = None \<or> (\<exists>r. map_of d ''readingTime'' = Some (JNum r))"
    by (auto simp: typed_page_def p field_def dest: str_or_absent_cases num_or_absent_cases)
  from u c r show ?thesis
    by (auto simp: is_valid_page_def eligible_def valid_url_def p field_def dict_get_def reading_time_def
        content_length_def str_field_def)
qed

lemma valid_pages_typed:
  "list_all typed_page ps \<Longrightarrow> valid_pages ps = Inr (filter eligible ps)"
  by (induction ps) (auto simp: is_valid_page_typed)

lemma sort_key_of_typed:
  assumes "typed_page p"
  shows "sort_key_of p = Inr (rank_key p)"
proof -
  obtain d where p: "p = JObj d"
    using assms typed_page_obj by blast
  from assms have c: "map_of d ''content'' = None \<or> (\<exists>s. map_of d ''content'' = Some (JStr s))"
    and r: "map_of d ''readingTime'' = None \<or> (\<exists>r. map_of d ''readingTime'' = Some (JNum r))"
    by (auto simp: typed_page_def p field_def dest: str_or_absent_cases num_or_absent_cases)
  from c r show ?thesis
    by (auto simp: sort_key_of_def rank_key_def p field_def dict_get_def reading_time_def
        content_length_def str_field_def)
qed

lemma dedup_key_typed:
  assumes "typed_page p"
  shows "dedup_key p = Inr (page_key p)"
proof -
  obtain d where p: "p = JObj d"
    using assms typed_page_obj by blast
  from assms have t: "map_of d ''title'' = None \<or> (\<exists>s. map_of d ''title'' = Some (JStr s))"
    and dm: "map_of d ''domain'' = None \<or> (\<exists>s. map_of d ''domain'' = Some (JStr s))"
    by (auto simp: typed_page_def p field_def dest: str_or_absent_cases)
  from t dm show ?thesis
    by (auto simp: dedup_key_def page_key_def p field_def dict_get_def str_field_def)
qed

lemma with_keys_typed:
  "list_all typed_page ps \<Longrightarrow> with_keys sort_key_of ps = Inr (map (\<lambda>p. (rank_key p, p)) ps)"
  by (induction ps) (auto simp: sort_key_of_typed)

lemma set_insert_desc: "set (insert_desc x ys) = insert x (set ys)"
  by (induction ys) auto

lemma mset_insert_desc: "mset (insert_desc x ys) = add_mset x (mset ys)"
  by (induction ys) auto

lemma sorted_insert_desc:
  "sorted_wrt (\<lambda>a b. fst b \<le> fst a) ys \<Longrightarrow> sorted_wrt (\<lambda>a b. fst b \<le> fst a) (insert_desc x ys)"
  by (induction ys) (auto simp: set_insert_desc)

lemma filter_insert_desc:
  "filter (\<lambda>a. fst a = k) (insert_desc x ys) =
     (if fst x = k then x # filter (\<lambda>a. fst a = k) ys else filter (\<lambda>a. fst a = k) ys)"
  by (induction ys) auto

lemma mset_sorted_reverse: "mset (sorted_reverse xs) = mset xs"
  by (induction xs) (simp_all add: sorted_reverse_def mset_insert_desc)

lemma sorted_sorted_reverse: "sorted_wrt (\<lambda>a b. fst b \<le> fst a) (sorted_reverse xs)"
  by (induction xs) (simp_all add: sorted_reverse_def sorted_insert_desc)

lemma stable_sorted_reverse:
  "filter (\<lambda>a. fst a = k) (sorted_reverse xs) = filter (\<lambda>a. fst a = k) xs"
  by (induction xs) (simp_all add: sorted_reverse_def filter_insert_desc)

lemma sort_pages_typed: "list_all typed_page ps \<Longrightarrow> sort_pages ps = Inr (ranked ps)"
  by (simp add: sort_pages_def with_keys_typed ranked_def)

lemma keyed_sorted_reverse:
  "\<forall>a \<in> set (sorted_reverse (map (\<lambda>p. (f p, p)) ps)). fst a = f (snd a)"
proof -
  have "set (sorted_reverse (map (\<lambda>p. (f p, p)) ps)) = set (map (\<lambda>p. (f p, p)) ps)"
    using mset_sorted_reverse [of "map (\<lambda>p. (f p, p)) ps"] by (metis set_mset_mset)
  then show ?thesis by auto
qed

lemma mset_ranked: "mset (ranked ps) = mset ps"
proof -
  have "mset (ranked ps) = image_mset snd (mset (sorted_reverse (map (\<lambda>p. (rank_key p, p)) ps)))"
    by (simp add: ranked_def)
  also have "\<dots> = image_mset snd (mset (map (\<lambda>p. (rank_key p, p)) ps))"
    by (simp only: mset_sorted_reverse)
  also have "\<dots> = mset ps"
    by (simp add: image_mset.compositionality comp_def)
  finally show ?thesis .
qed

lemma set_ranked: "set (ranked ps) = set ps"
  using mset_ranked [of ps] by (metis set_mset_mset)

lemma ranks_before_iff: "ranks_before p q \<longleftrightarrow> rank_key q \<le> rank_key p"
  by (auto simp: ranks_before_def rank_key_def less_eq_prod_def)

lemma sorted_ranked: "sorted_wrt ranks_before (ranked ps)"
proof -
  let ?s = "sorted_reverse (map (\<lambda>p. (rank_key p, p)) ps)"
  have k: "\<forall>a \<in> set ?s. fst a = rank_key (snd a)"
    by (rule keyed_sorted_reverse)
  have "sorted_wrt (\<lambda>a b. fst b \<le> fst a) ?s"
    by (rule sorted_sorted_reverse)
  then have "sorted_wrt (\<lambda>a b. ranks_before (snd a) (snd b)) ?s"
    by (rule sorted_wrt_mono_rel [rotated]) (use k in \<open>auto simp: ranks_before_iff\<close>)
  then show ?thesis
    by (simp add: ranked_def sorted_wrt_map)
qed

lemma stable_ranked:
  "filter (\<lambda>p. rank_key p = k) (ranked ps) = filter (\<lambda>p. rank_key p = k) ps"
proof -
  let ?d = "map (\<lambda>p. (rank_key p, p)) ps"
  let ?s = "sorted_reverse ?d"
  have key: "\<forall>a \<in> set ?s. fst a = rank_key (snd a)"
    by (rule keyed_sorted_reverse)
  have "filter (\<lambda>p. rank_key p = k) (map snd ?s) = map snd (filter (\<lambda>a. rank_key (snd a) = k) ?s)"
    by (simp add: filter_map comp_def)
  also have "filter (\<lambda>a. rank_key (snd a) = k) ?s = filter (\<lambda>a. fst a = k) ?s"
    by (rule filter_cong) (use key in auto)
  also have "\<dots> = filter (\<lambda>a. fst a = k) ?d"
    by (rule stable_sorted_reverse)
  also have "map snd \<dots> = filter (\<lambda>p. rank_key p = k) ps"
    by (simp add: filter_map comp_def)
  finally show ?thesis by (simp add: ranked_def)
qed

lemma unseen_filter: "unseen f seen xs = first_occurrences f (filter (\<lambda>x. f x \<notin> seen) xs)"
proof (induction xs arbitrary: seen)
  case Nil
  then show ?case by simp
next
  case (Cons x xs)
  have "filter (\<lambda>y. f y \<noteq> f x) (filter (\<lambda>x. f x \<notin> seen) xs)
          = filter (\<lambda>y. f y \<notin> insert (f x) seen) xs"
    by (induction xs) auto
  with Cons show ?case by simp
qed

lemma unseen_empty: "unseen f {} xs = first_occurrences f xs"
  by (simp add: unseen_filter)

lemma dedup_loop_typed:
  assumes "list_all typed_page ps"
  shows "dedup_loop n ps seen acc =
           Inr (acc @ take (max (Suc 0) (nat n - length acc)) (unseen page_key seen ps))"
  using assms
proof (induction ps arbitrary: seen acc)
  case Nil
  then show ?case by simp
next
  case (Cons p ps)
  then have key: "dedup_key p = Inr (page_key p)" and rest: "list_all typed_page ps"
    by (simp_all add: dedup_key_typed)
  show ?case
  proof (cases "page_key p \<in> seen")
    case True
    then show ?thesis
      using Cons.IH [OF rest] by (simp add: key)
  next
    case False
    show ?thesis
    proof (cases "n \<le> int (length acc) + 1")
      case True
      then have "max (Suc 0) (nat n - length acc) = 1" by auto
      with True False show ?thesis by (simp add: key)
    next
      case big: False
      then have m: "nat n - length acc = Suc (nat n - Suc (length acc))"
        and m': "max (Suc 0) (nat n - Suc (length acc)) = nat n - Suc (length acc)"
        and m'': "max (Suc 0) (nat n - length acc) = nat n - length acc"
        by auto
      have tk: "take (nat n - length acc) (p # xs) = p # take (nat n - Suc (length acc)) xs" for xs
        by (subst m) simp
      from big False show ?thesis
        using Cons.IH [OF rest, of "insert (page_key p) seen" "acc @ [p]"]
        by (simp add: key m' m'' tk)
    qed
  qed
qed

lemma slice_to_take_max:
  "slice_to (take (max (Suc 0) (nat n)) xs) n = take (nat n) xs"
proof (cases "0 \<le> n")
  case True
  then show ?thesis by (auto simp: slice_to_def min_def max_def)
next
  case False
  then have "nat n = 0" and "max (Suc 0) (nat n) = 1" and "1 \<le> nat (- n)" by auto
  with False show ?thesis by (simp add: slice_to_def)
qed

lemma filter_typed: "list_all typed_page ps \<Longrightarrow> list_all typed_page (filter P ps)"
  by (auto simp: list_all_iff)

lemma ranked_typed: "list_all typed_page ps \<Longrightarrow> list_all typed_page (ranked ps)"
  by (simp add: list_all_iff set_ranked)

lemma ranked_Nil_iff: "ranked ps = [] \<longleftrightarrow> ps = []"
  using mset_ranked [of ps] by (metis mset_zero_iff)

lemma get_top_pages_typed:
  assumes "list_all typed_page ps" and "dict_get d ''pages'' (JArr []) = JArr ps"
  shows "get_top_pages (JObj d) n =
           Inr (take (nat n) (first_occurrences page_key (ranked (filter eligible ps))))"
proof -
  let ?v = "filter eligible ps"
  have tv: "list_all typed_page ?v"
    using assms(1) by (rule filter_typed)
  have loop: "dedup_loop n (ranked ?v) {} [] =
      Inr (take (max (Suc 0) (nat n)) (first_occurrences page_key (ranked ?v)))"
    using dedup_loop_typed [OF ranked_typed [OF tv], of n "{}" "[]"] by (simp add: unseen_empty)
  show ?thesis
  proof (cases "?v = []")
    case True
    then show ?thesis
      using assms by (simp add: get_top_pages_def valid_pages_typed ranked_def sorted_reverse_def)
  next
    case False
    then show ?thesis
      using assms tv
      by (simp add: get_top_pages_def valid_pages_typed sort_pages_typed loop slice_to_take_max)
  qed
qed

lemma find_filter_imp:
  assumes "\<And>x. P x \<Longrightarrow> Q x"
  shows "find P (filter Q xs) = find P xs"
  using assms by (induction xs) auto

lemma set_first_occurrences: "set (first_occurrences f xs) \<subseteq> set xs"
  by (induction f xs rule: first_occurrences.induct) auto

lemma subseq_first_occurrences: "subseq (first_occurrences f xs) xs"
proof (induction f xs rule: first_occurrences.induct)
  case (1 f)
  then show ?case by simp
next
  case (2 f x xs)
  have "subseq (filter (\<lambda>y. f y \<noteq> f x) xs) xs" by simp
  with 2 have "subseq (first_occurrences f (filter (\<lambda>y. f y \<noteq> f x) xs)) xs"
    by (rule subseq_order.trans)
  then show ?case by simp
qed

lemma distinct_first_occurrences: "distinct (map f (first_occurrences f xs))"
proof (induction f xs rule: first_occurrences.induct)
  case (1 f)
  then show ?case by simp
next
  case (2 f x xs)
  have "f x \<notin> f ` set (first_occurrences f (filter (\<lambda>y. f y \<noteq> f x) xs))"
    using set_first_occurrences [of f "filter (\<lambda>y. f y \<noteq> f x) xs"] by auto
  with 2 show ?case by simp
qed

lemma find_first_occurrences:
  "p \<in> set (first_occurrences f xs) \<Longrightarrow> find (\<lambda>q. f q = f p) xs = Some p"
proof (induction f xs rule: first_occurrences.induct)
  case (1 f)
  then show ?case by simp
next
  case (2 f x xs)
  show ?case
  proof (cases "p = x")
    case True
    then show ?thesis by simp
  next
    case False
    with "2.prems" have mem: "p \<in> set (first_occurrences f (filter (\<lambda>y. f y \<noteq> f x) xs))"
      by simp
    then have "p \<in> set (filter (\<lambda>y. f y \<noteq> f x) xs)"
      using set_first_occurrences [of f "filter (\<lambda>y. f y \<noteq> f x) xs"] by blast
    then have ne: "f p \<noteq> f x" by simp
    have "find (\<lambda>q. f q = f p) (filter (\<lambda>y. f y \<noteq> f x) xs) = find (\<lambda>q. f q = f p) xs"
      by (rule find_filter_imp) (use ne in auto)
    with "2.IH" [OF mem] ne show ?thesis by auto
  qed
qed

lemma keys_first_occurrences: "f ` set (first_occurrences f xs) = f ` set xs"
proof (induction f xs rule: first_occurrences.induct)
  case (1 f)
  then show ?case by simp
next
  case (2 f x xs)
  then show ?case by auto
qed

lemma sorted_wrt_subseq:
  assumes "subseq xs ys" and "sorted_wrt R ys"
  shows "sorted_wrt R xs"
  using assms
proof (induction rule: list_emb.induct)
  case (list_emb_Nil ys)
  then show ?case by simp
next
  case (list_emb_Cons xs ys y)
  then show ?case by simp
next
  case (list_emb_Cons2 x y xs ys)
  have "set xs \<subseteq> set ys"
    using list_emb_Cons2.hyps(2) by (auto dest: list_emb_set)
  with list_emb_Cons2 show ?case by auto
qed

lemma subseq_take: "subseq (take n xs) xs"
  by (rule prefix_imp_subseq) (rule take_is_prefix)

lemma eligible_iff:
  "eligible p \<longleftrightarrow> valid_url p \<and> (reading_time p > 1 / 2 \<or> content_length p > 100)"
  by (simp add: eligible_def)

text \<open>
  C1. On pages of the data model the comprehension of \<open>get_top_pages\<close> keeps
  exactly the eligible pages: a page is admitted if and only if its URL is present, not
  empty and, trimmed, begins with \<open>http\<close>, and its reading time exceeds 0.5 or
  its content is longer than 100 characters. So a page with a valid URL, reading time 0
  and 50 characters of content is excluded, and one with a valid URL, reading time 0.6
  and no content is included. Every page \<open>get_top_pages\<close> returns is eligible.
\<close>

theorem ranker_filter:
  assumes "list_all typed_page ps" and "dict_get d ''pages'' (JArr []) = JArr ps"
  shows "valid_pages ps = Inr (filter eligible ps)
         \<and> (\<forall>p \<in> set ps. is_valid_page p = Inr (eligible p))
         \<and> (\<forall>p \<in> set ps. valid_url p \<and> reading_time p = 0 \<and> content_length p = 50
               \<longrightarrow> is_valid_page p = Inr False)
         \<and> (\<forall>p \<in> set ps. valid_url p \<and> reading_time p = 6 / 10 \<and> content_length p = 0
               \<longrightarrow> is_valid_page p = Inr True)
         \<and> (\<exists>r. get_top_pages (JObj d) n = Inr r \<and> set r \<subseteq> {p \<in> set ps. eligible p})"
proof (intro conjI ballI impI)
  show "valid_pages ps = Inr (filter eligible ps)"
    using assms(1) by (rule valid_pages_typed)
next
  fix p assume "p \<in> set ps"
  with assms(1) have "typed_page p" by (simp add: list_all_iff)
  then show "is_valid_page p = Inr (eligible p)" by (rule is_valid_page_typed)
next
  fix p assume "p \<in> set ps"
    and h: "valid_url p \<and> reading_time p = 0 \<and> content_length p = 50"
  with assms(1) have "typed_page p" by (simp add: list_all_iff)
  then have "is_valid_page p = Inr (eligible p)" by (rule is_valid_page_typed)
  with h show "is_valid_page p = Inr False" by (simp add: eligible_iff)
next
  fix p assume "p \<in> set ps"
    and h: "valid_url p \<and> reading_time p = 6 / 10 \<and> content_length p = 0"
  with assms(1) have "typed_page p" by (simp add: list_all_iff)
  then have "is_valid_page p = Inr (eligible p)" by (rule is_valid_page_typed)
  with h show "is_valid_page p = Inr True" by (simp add: eligible_iff)
next
  let ?r = "take (nat n) (first_occurrences page_key (ranked (filter eligible ps)))"
  have "set ?r \<subseteq> set (first_occurrences page_key (ranked (filter eligible ps)))"
    by (rule set_take_subset)
  also have "\<dots> \<subseteq> set (ranked (filter eligible ps))"
    by (rule set_first_occurrences)
  also have "\<dots> = {p \<in> set ps. eligible p}"
    by (simp add: set_ranked)
  finally have "set ?r \<subseteq> {p \<in> set ps. eligible p}" .
  with get_top_pages_typed [OF assms, of n]
  show "\<exists>r. get_top_pages (JObj d) n = Inr r \<and> set r \<subseteq> {p \<in> set ps. eligible p}"
    by blast
qed

text \<open>
  C2. After filtering and sorting, \<open>get_top_pages\<close> returns the first
  \<open>top_n\<close> first occurrences of the deduplication keys (none for a \<open>top_n\<close>
  below 1): at most \<open>top_n\<close> pages, with distinct keys, each the first page of the
  sorted list with its key; with a \<open>top_n\<close> that does not cut, every key of the
  sorted list is represented. So two eligible pages with the same key give one entry,
  the one with the longer reading time or, on a tie, the longer content, whichever
  comes first in the input.
\<close>

theorem ranker_dedup:
  assumes "list_all typed_page ps" and "dict_get d ''pages'' (JArr []) = JArr ps"
  shows "\<exists>valid s r.
           valid_pages ps = Inr valid \<and> sort_pages valid = Inr s
           \<and> get_top_pages (JObj d) n = Inr r
           \<and> r = take (nat n) (first_occurrences page_key s)
           \<and> length r \<le> nat n
           \<and> distinct (map page_key r)
           \<and> (\<forall>p \<in> set r. find (\<lambda>q. page_key q = page_key p) s = Some p)
           \<and> (nat n \<ge> length s \<longrightarrow> page_key ` set r = page_key ` set s)
           \<and> (\<forall>p q. (ps = [p, q] \<or> ps = [q, p])
                  \<and> eligible p \<and> eligible q \<and> page_key p = page_key q
                  \<and> (reading_time q < reading_time p
                       \<or> (reading_time q = reading_time p \<and> content_length q < content_length p))
                  \<and> 1 \<le> n
                  \<longrightarrow> r = [p])"
proof -
  let ?v = "filter eligible ps"
  let ?s = "ranked ?v"
  let ?f = "first_occurrences page_key ?s"
  let ?r = "take (nat n) ?f"
  have tv: "list_all typed_page ?v"
    using assms(1) by (rule filter_typed)
  have 1: "valid_pages ps = Inr ?v"
    using assms(1) by (rule valid_pages_typed)
  have 2: "sort_pages ?v = Inr ?s"
    using tv by (rule sort_pages_typed)
  have 3: "get_top_pages (JObj d) n = Inr ?r"
    using assms by (rule get_top_pages_typed)
  have 4: "length ?r \<le> nat n" by simp
  have "distinct (map page_key ?f)" by (rule distinct_first_occurrences)
  then have 5: "distinct (map page_key ?r)"
    by (simp add: take_map [symmetric] distinct_take)
  have 6: "\<forall>p \<in> set ?r. find (\<lambda>q. page_key q = page_key p) ?s = Some p"
  proof
    fix p assume "p \<in> set ?r"
    then have "p \<in> set ?f" by (rule in_set_takeD)
    then show "find (\<lambda>q. page_key q = page_key p) ?s = Some p"
      by (rule find_first_occurrences)
  qed
  have 7: "nat n \<ge> length ?s \<longrightarrow> page_key ` set ?r = page_key ` set ?s"
  proof
    assume big: "nat n \<ge> length ?s"
    have "length ?f \<le> length ?s"
      using subseq_first_occurrences [of page_key ?s] by (rule list_emb_length)
    with big have "?r = ?f" by simp
    then show "page_key ` set ?r = page_key ` set ?s"
      by (simp add: keys_first_occurrences)
  qed
  have 8: "\<forall>p q. (ps = [p, q] \<or> ps = [q, p])
                  \<and> eligible p \<and> eligible q \<and> page_key p = page_key q
                  \<and> (reading_time q < reading_time p
                       \<or> (reading_time q = reading_time p \<and> content_length q < content_length p))
                  \<and> 1 \<le> n
                  \<longrightarrow> ?r = [p]"
  proof (intro allI impI)
    fix p q
    assume h: "(ps = [p, q] \<or> ps = [q, p])
                  \<and> eligible p \<and> eligible q \<and> page_key p = page_key q
                  \<and> (reading_time q < reading_time p
                       \<or> (reading_time q = reading_time p \<and> content_length q < content_length p))
                  \<and> 1 \<le> n"
    then have lt: "rank_key q < rank_key p"
      by (auto simp: rank_key_def less_prod_def)
    then have nle: "\<not> rank_key p \<le> rank_key q" and le: "rank_key q \<le> rank_key p"
      by auto
    from h have "?v = [p, q] \<or> ?v = [q, p]" by auto
    then have "?s = [p, q]"
      using nle le by (auto simp: ranked_def sorted_reverse_def)
    moreover from h have "page_key p = page_key q" by simp
    moreover from h have "nat n \<ge> 1" by auto
    ultimately show "?r = [p]"
      by (cases "nat n") auto
  qed
  from 1 2 3 4 5 6 7 8 show ?thesis by blast
qed

text \<open>
  C3. The eligible pages are sorted by reading time, descending, ties broken by content
  length, descending; the sort is a permutation and is stable: pages equal on both keys
  keep their input order. What \<open>get_top_pages\<close> returns is a subsequence of the
  sorted list, so it is in that order too. The model being a function, equal inputs
  give equal results.
\<close>

theorem ranker_order:
  assumes "list_all typed_page ps" and "dict_get d ''pages'' (JArr []) = JArr ps"
  shows "\<exists>valid s r.
           valid_pages ps = Inr valid \<and> sort_pages valid = Inr s
           \<and> mset s = mset valid
           \<and> sorted_wrt ranks_before s
           \<and> (\<forall>k. filter (\<lambda>p. rank_key p = k) s = filter (\<lambda>p. rank_key p = k) valid)
           \<and> get_top_pages (JObj d) n = Inr r
           \<and> subseq r s
           \<and> sorted_wrt ranks_before r"
proof -
  let ?v = "filter eligible ps"
  let ?s = "ranked ?v"
  let ?r = "take (nat n) (first_occurrences page_key ?s)"
  have tv: "list_all typed_page ?v"
    using assms(1) by (rule filter_typed)
  have 1: "valid_pages ps = Inr ?v"
    using assms(1) by (rule valid_pages_typed)
  have 2: "sort_pages ?v = Inr ?s"
    using tv by (rule sort_pages_typed)
  have 3: "mset ?s = mset ?v" by (rule mset_ranked)
  have 4: "sorted_wrt ranks_before ?s" by (rule sorted_ranked)
  have 5: "\<forall>k. filter (\<lambda>p. rank_key p = k) ?s = filter (\<lambda>p. rank_key p = k) ?v"
    by (simp add: stable_ranked)
  have 6: "get_top_pages (JObj d) n = Inr ?r"
    using assms by (rule get_top_pages_typed)
  have 7: "subseq ?r ?s"
    using subseq_take subseq_first_occurrences by (rule subseq_order.trans)
  have 8: "sorted_wrt ranks_before ?r"
    using 7 4 by (rule sorted_wrt_subseq)
  from 1 2 3 4 5 6 7 8 show ?thesis by blast
qed

theorem ranker_filter_witness:
  "list_all typed_page [page_skimmed, page_read]
   \<and> dict_get [(''date'', JStr ''2025-01-19''), (''pages'', JArr [page_skimmed, page_read])]
         ''pages'' (JArr []) = JArr [page_skimmed, page_read]
   \<and> valid_url page_skimmed \<and> reading_time page_skimmed = 0 \<and> content_length page_skimmed = 50
   \<and> is_valid_page page_skimmed = Inr False
   \<and> valid_url page_read \<and> reading_time page_read = 6 / 10 \<and> content_length page_read = 0
   \<and> is_valid_page page_read = Inr True
   \<and> valid_pages [page_skimmed, page_read] = Inr [page_read]
   \<and> get_top_pages
        (JObj [(''date'', JStr ''2025-01-19''), (''pages'', JArr [page_skimmed, page_read])]) 15
       = Inr [page_read]"
proof -
  let ?ps = "[page_skimmed, page_read]"
  let ?d = "[(''date'', JStr ''2025-01-19''), (''pages'', JArr ?ps)]"
  have h1: "list_all typed_page ?ps" by code_simp
  have h2: "dict_get ?d ''pages'' (JArr []) = JArr ?ps" by code_simp
  have a: "valid_url page_skimmed \<and> reading_time page_skimmed = 0 \<and> content_length page_skimmed = 50"
    by code_simp
  have b: "valid_url page_read \<and> reading_time page_read = 6 / 10 \<and> content_length page_read = 0"
    by code_simp
  have el: "filter eligible ?ps = [page_read]" by code_simp
  have top: "get_top_pages (JObj ?d) 15 = Inr [page_read]" by code_simp
  note T = ranker_filter [OF h1 h2, of 15]
  have vp: "valid_pages ?ps = Inr (filter eligible ?ps)"
    by (rule T [THEN conjunct1])
  have m1: "page_skimmed \<in> set ?ps" and m2: "page_read \<in> set ?ps"
    by simp_all
  have x: "is_valid_page page_skimmed = Inr False"
    by (rule T [THEN conjunct2, THEN conjunct2, THEN conjunct1, rule_format, OF m1 a])
  have y: "is_valid_page page_read = Inr True"
    by (rule T [THEN conjunct2, THEN conjunct2, THEN conjunct2, THEN conjunct1, rule_format, OF m2 b])
  from vp el have vp': "valid_pages ?ps = Inr [page_read]"
    by (simp only:)
  from h1 h2 a b x y vp' top show ?thesis
    by (intro conjI) (simp_all only:)
qed

theorem ranker_dedup_witness:
  "list_all typed_page [page_short_visit, page_long_visit]
   \<and> dict_get [(''date'', JStr ''2025-01-19''), (''pages'', JArr [page_short_visit, page_long_visit])]
         ''pages'' (JArr []) = JArr [page_short_visit, page_long_visit]
   \<and> eligible page_short_visit \<and> eligible page_long_visit
   \<and> page_key page_short_visit = page_key page_long_visit
   \<and> reading_time page_short_visit < reading_time page_long_visit
   \<and> get_top_pages
        (JObj [(''date'', JStr ''2025-01-19''), (''pages'', JArr [page_short_visit, page_long_visit])]) 15
       = Inr [page_long_visit]"
proof -
  let ?ps = "[page_short_visit, page_long_visit]"
  let ?d = "[(''date'', JStr ''2025-01-19''), (''pages'', JArr ?ps)]"
  have h1: "list_all typed_page ?ps" by code_simp
  have h2: "dict_get ?d ''pages'' (JArr []) = JArr ?ps" by code_simp
  have e: "eligible page_short_visit \<and> eligible page_long_visit" by code_simp
  have k: "page_key page_short_visit = page_key page_long_visit" by code_simp
  have r: "reading_time page_short_visit < reading_time page_long_visit" by code_simp
  from ranker_dedup [OF h1 h2, of 15] obtain res where
    top: "get_top_pages (JObj ?d) 15 = Inr res"
    and two: "\<forall>p q. (?ps = [p, q] \<or> ?ps = [q, p])
                  \<and> eligible p \<and> eligible q \<and> page_key p = page_key q
                  \<and> (reading_time q < reading_time p
                       \<or> (reading_time q = reading_time p \<and> content_length q < content_length p))
                  \<and> (1::int) \<le> 15
                  \<longrightarrow> res = [p]"
    by blast
  from two [rule_format, of page_long_visit page_short_visit] e k r
  have "res = [page_long_visit]" by simp
  with top h1 h2 e k r show ?thesis by simp
qed

theorem ranker_order_witness:
  "list_all typed_page [page_index0, page_index1, page_index2]
   \<and> dict_get [(''date'', JStr ''2025-01-19''), (''pages'', JArr [page_index0, page_index1, page_index2])]
         ''pages'' (JArr []) = JArr [page_index0, page_index1, page_index2]
   \<and> map reading_time [page_index0, page_index1, page_index2] = [10, 10, 5]
   \<and> map content_length [page_index0, page_index1, page_index2] = [20, 50, 100]
   \<and> distinct (map page_key [page_index0, page_index1, page_index2])
   \<and> sort_pages [page_index0, page_index1, page_index2] = Inr [page_index1, page_index0, page_index2]
   \<and> sorted_wrt ranks_before [page_index1, page_index0, page_index2]
   \<and> get_top_pages
        (JObj [(''date'', JStr ''2025-01-19''), (''pages'', JArr [page_index0, page_index1, page_index2])]) 15
       = Inr [page_index1, page_index0, page_index2]"
proof -
  let ?ps = "[page_index0, page_index1, page_index2]"
  let ?d = "[(''date'', JStr ''2025-01-19''), (''pages'', JArr ?ps)]"
  have h1: "list_all typed_page ?ps" by code_simp
  have h2: "dict_get ?d ''pages'' (JArr []) = JArr ?ps" by code_simp
  have a: "map reading_time ?ps = [10, 10, 5]" by code_simp
  have b: "map content_length ?ps = [20, 50, 100]" by code_simp
  have c: "distinct (map page_key ?ps)" by code_simp
  have v: "valid_pages ?ps = Inr ?ps" by code_simp
  have s: "sort_pages ?ps = Inr [page_index1, page_index0, page_index2]" by code_simp
  have top: "get_top_pages (JObj ?d) 15 = Inr [page_index1, page_index0, page_index2]" by code_simp
  from ranker_order [OF h1 h2, of 15] obtain valid srt res where
    "valid_pages ?ps = Inr valid" "sort_pages valid = Inr srt" "sorted_wrt ranks_before srt"
    by blast
  with v s have "sorted_wrt ranks_before [page_index1, page_index0, page_index2]" by simp
  with h1 h2 a b c s top show ?thesis by simp
qed


section \<open>Content budget: order, prefix, output\<close>

lemma accepted_prefix: "prefix (accepted budget used blocks) blocks"
  by (induction blocks arbitrary: used) auto

lemma accepted_mono:
  "m1 \<le> m2 \<Longrightarrow> prefix (accepted m1 used blocks) (accepted m2 used blocks)"
  by (induction blocks arbitrary: used) auto

lemma cost_Cons: "cost (b # bs) = of_nat (length b) * (1 / 4) + cost bs"
  by (simp add: cost_def)

lemma cost_Nil: "cost [] = 0"
  by (simp add: cost_def)

lemma accepted_within:
  "accepted budget used blocks \<noteq> [] \<Longrightarrow> used + cost (accepted budget used blocks) \<le> budget"
proof (induction blocks arbitrary: used)
  case Nil
  then show ?case by simp
next
  case (Cons b blocks)
  let ?u = "used + of_nat (length b) * (1 / 4)"
  from Cons.prems have le: "?u \<le> budget"
    by (auto split: if_splits)
  show ?case
  proof (cases "accepted budget ?u blocks = []")
    case True
    with le show ?thesis by (simp add: cost_Cons cost_Nil)
  next
    case False
    from Cons.IH [OF False] le show ?thesis
      by (simp add: cost_Cons add.assoc)
  qed
qed

lemma accepted_stops:
  "length (accepted budget used blocks) < length blocks \<Longrightarrow>
     used + cost (take (Suc (length (accepted budget used blocks))) blocks) > budget"
proof (induction blocks arbitrary: used)
  case Nil
  then show ?case by simp
next
  case (Cons b blocks)
  let ?u = "used + of_nat (length b) * (1 / 4)"
  show ?case
  proof (cases "?u > budget")
    case True
    then show ?thesis by (simp add: cost_Cons cost_Nil)
  next
    case False
    with Cons.prems have "length (accepted budget ?u blocks) < length blocks"
      by simp
    from Cons.IH [OF this] False show ?thesis
      by (simp add: cost_Cons add.assoc)
  qed
qed

lemma join_append:
  "join sep (xs @ ys) =
     join sep xs @ (if xs = [] \<or> ys = [] then [] else sep) @ join sep ys"
proof (induction sep xs rule: join.induct)
  case (1 sep)
  then show ?case by simp
next
  case (2 sep p)
  then show ?case by (cases ys) auto
next
  case (3 sep p q ps)
  then show ?case by simp
qed

lemma join_prefix: "prefix xs ys \<Longrightarrow> prefix (join sep xs) (join sep ys)"
  by (auto simp: prefix_def join_append)

lemma budget_loop_blocks:
  assumes "\<forall>p \<in> set pages. page_text hhmm render p = Inr (block_of hhmm render p)"
  shows "budget_loop hhmm render m pages used parts =
           Inr (parts @ accepted (of_int m) used (map (block_of hhmm render) pages))"
  using assms
proof (induction pages arbitrary: used parts)
  case Nil
  then show ?case by simp
next
  case (Cons p pages)
  then have t: "page_text hhmm render p = Inr (block_of hhmm render p)" by simp
  from Cons show ?case by (simp add: t Let_def)
qed

lemma page_text_typed:
  assumes "typed_page p"
  shows "page_text hhmm render p = Inr (block_of hhmm render p)"
proof -
  obtain d where p: "p = JObj d"
    using assms typed_page_obj by blast
  from assms have c: "map_of d ''content'' = None \<or> (\<exists>s. map_of d ''content'' = Some (JStr s))"
    by (auto simp: typed_page_def p field_def dest: str_or_absent_cases)
  then have "\<exists>t. page_text hhmm render p = Inr t"
    by (auto simp: page_text_def p dict_get_def)
  then show ?thesis by (auto simp: block_of_def)
qed

lemma timestamp_typed:
  assumes "typed_page p"
  shows "py_get p ''timestamp'' (JStr []) = Inr (JStr (timestamp_of p))"
proof -
  obtain d where p: "p = JObj d"
    using assms typed_page_obj by blast
  from assms have "map_of d ''timestamp'' = None \<or> (\<exists>s. map_of d ''timestamp'' = Some (JStr s))"
    by (auto simp: typed_page_def p field_def dest: str_or_absent_cases)
  then show ?thesis
    by (auto simp: p dict_get_def timestamp_of_def str_field_def field_def)
qed

lemma with_keys_timestamp:
  "list_all typed_page ps \<Longrightarrow>
     with_keys (\<lambda>x. py_get x ''timestamp'' (JStr [])) ps = Inr (map (\<lambda>p. (JStr (timestamp_of p), p)) ps)"
  by (induction ps) (auto simp: timestamp_typed)

lemma those_str_keys:
  "those (map str_key (map (\<lambda>p. (JStr (f p), p)) ps)) = Some (map (\<lambda>p. (f p, p)) ps)"
  by (induction ps) auto

lemma sort_key_short: "length xs \<le> 1 \<Longrightarrow> sort_key f xs = xs"
  by (cases xs) auto

lemma sort_by_timestamp_typed:
  assumes "list_all typed_page ps"
  shows "sort_by_timestamp ps = Inr (by_timestamp ps)"
proof (cases "length ps \<le> 1")
  case True
  then have "sort_key fst (map (\<lambda>p. (timestamp_of p, p)) ps) = map (\<lambda>p. (timestamp_of p, p)) ps"
    by (intro sort_key_short) simp
  then have "by_timestamp ps = ps"
    by (simp add: by_timestamp_def comp_def)
  with True assms show ?thesis
    by (simp add: sort_by_timestamp_def with_keys_timestamp comp_def)
next
  case False
  with assms show ?thesis
    by (simp add: sort_by_timestamp_def with_keys_timestamp those_str_keys by_timestamp_def
        del: map_map)
qed

lemma mset_by_timestamp: "mset (by_timestamp ps) = mset ps"
proof -
  have "mset (by_timestamp ps) = image_mset snd (mset (sort_key fst (map (\<lambda>p. (timestamp_of p, p)) ps)))"
    by (simp add: by_timestamp_def)
  also have "\<dots> = mset ps"
    by (simp add: image_mset.compositionality comp_def)
  finally show ?thesis .
qed

lemma set_by_timestamp: "set (by_timestamp ps) = set ps"
  using mset_by_timestamp [of ps] by (metis set_mset_mset)

lemma keyed_sort_key:
  "\<forall>a \<in> set (sort_key fst (map (\<lambda>p. (f p, p)) ps)). fst a = f (snd a)"
  by auto

lemma sorted_by_timestamp: "sorted (map timestamp_of (by_timestamp ps))"
proof -
  let ?s = "sort_key fst (map (\<lambda>p. (timestamp_of p, p)) ps)"
  have "map timestamp_of (by_timestamp ps) = map (\<lambda>a. timestamp_of (snd a)) ?s"
    by (simp add: by_timestamp_def comp_def)
  also have "\<dots> = map fst ?s"
    by (rule map_cong) (use keyed_sort_key [of timestamp_of ps] in auto)
  finally show ?thesis by simp
qed

lemma stable_by_timestamp:
  "filter (\<lambda>p. timestamp_of p = k) (by_timestamp ps) = filter (\<lambda>p. timestamp_of p = k) ps"
proof -
  let ?d = "map (\<lambda>p. (timestamp_of p, p)) ps"
  let ?s = "sort_key fst ?d"
  have "filter (\<lambda>p. timestamp_of p = k) (map snd ?s) = map snd (filter (\<lambda>a. timestamp_of (snd a) = k) ?s)"
    by (simp add: filter_map comp_def)
  also have "filter (\<lambda>a. timestamp_of (snd a) = k) ?s = filter (\<lambda>a. fst a = k) ?s"
    by (rule filter_cong) (use keyed_sort_key [of timestamp_of ps] in auto)
  also have "\<dots> = filter (\<lambda>a. fst a = k) ?d"
    by (rule sort_key_stable)
  also have "map snd \<dots> = filter (\<lambda>p. timestamp_of p = k) ps"
    by (simp add: filter_map comp_def)
  finally show ?thesis by (simp add: by_timestamp_def)
qed

lemma by_timestamp_typed: "list_all typed_page ps \<Longrightarrow> list_all typed_page (by_timestamp ps)"
  by (simp add: list_all_iff set_by_timestamp)

lemma prepare_typed:
  assumes "list_all typed_page ps" and "dict_get d ''pages'' (JArr []) = JArr ps"
  shows "prepare_content_for_llm hhmm render (JObj d) m =
           Inr (join ''\<newline>''
             (accepted (of_int m) 0 (map (block_of hhmm render) (by_timestamp ps))))"
proof (cases "ps = []")
  case True
  with assms show ?thesis
    by (simp add: prepare_content_for_llm_def by_timestamp_def)
next
  case False
  have "\<forall>p \<in> set (by_timestamp ps). page_text hhmm render p = Inr (block_of hhmm render p)"
    using assms(1) by (auto simp: set_by_timestamp list_all_iff page_text_typed)
  from budget_loop_blocks [OF this, of m 0 "[]"] False assms show ?thesis
    by (simp add: prepare_content_for_llm_def sort_by_timestamp_typed)
qed

lemma block_ends_newline:
  assumes "typed_page p"
  shows "block_of hhmm render p \<noteq> [] \<and> last (block_of hhmm render p) = CHR ''\<newline>''"
proof -
  obtain d where p: "p = JObj d"
    using assms typed_page_obj by blast
  from assms have c: "map_of d ''content'' = None \<or> (\<exists>s. map_of d ''content'' = Some (JStr s))"
    by (auto simp: typed_page_def p field_def dest: str_or_absent_cases)
  then have "\<exists>t. page_text hhmm render p = Inr (t @ ''\<newline>'')"
    by (auto simp: page_text_def p dict_get_def)
  then obtain t where "block_of hhmm render p = t @ ''\<newline>''"
    by (auto simp: block_of_def)
  then show ?thesis by simp
qed

lemma prefix_take: "prefix xs ys \<Longrightarrow> take (length xs) ys = xs"
  by (auto simp: prefix_def)

lemma join_concat:
  "bs \<noteq> [] \<Longrightarrow> join sep bs = concat (map (\<lambda>b. b @ sep) (butlast bs)) @ last bs"
  by (induction sep bs rule: join.induct) auto

lemma blocks_of_sorted:
  assumes "list_all typed_page ps"
  shows "map (page_text hhmm render) (by_timestamp ps)
           = map Inr (map (block_of hhmm render) (by_timestamp ps))"
  using assms by (auto simp: set_by_timestamp list_all_iff page_text_typed)

lemma budget_loop_typed:
  assumes "list_all typed_page ps"
  shows "budget_loop hhmm render m (by_timestamp ps) 0 [] =
           Inr (accepted (of_int m) 0 (map (block_of hhmm render) (by_timestamp ps)))"
proof -
  have "\<forall>p \<in> set (by_timestamp ps). page_text hhmm render p = Inr (block_of hhmm render p)"
    using assms by (auto simp: set_by_timestamp list_all_iff page_text_typed)
  from budget_loop_blocks [OF this, of m 0 "[]"] show ?thesis by simp
qed

text \<open>
  C4. For pages of the data model and budgets \<open>m1 \<le> m2\<close>: the pages are taken in
  ascending order of their timestamps; the blocks accepted at \<open>m1\<close> are a prefix of
  those accepted at \<open>m2\<close>, so no fewer pages are included at \<open>m2\<close>, and the
  output at \<open>m1\<close> is a prefix of the output at \<open>m2\<close>. The accepted blocks are a
  prefix of the blocks of the sorted pages: they fit the budget, and when a block is
  left the next one would go over it; the loop stops there and takes no later block.
\<close>

theorem budget_monotone:
  assumes "list_all typed_page ps" and "dict_get d ''pages'' (JArr []) = JArr ps"
    and "m1 \<le> m2"
  shows "\<exists>sorted_pages blocks parts1 parts2.
           sort_by_timestamp ps = Inr sorted_pages
           \<and> sorted (map timestamp_of sorted_pages)
           \<and> map (page_text hhmm render) sorted_pages = map Inr blocks
           \<and> budget_loop hhmm render m1 sorted_pages 0 [] = Inr parts1
           \<and> budget_loop hhmm render m2 sorted_pages 0 [] = Inr parts2
           \<and> prepare_content_for_llm hhmm render (JObj d) m1 = Inr (join ''\<newline>'' parts1)
           \<and> prepare_content_for_llm hhmm render (JObj d) m2 = Inr (join ''\<newline>'' parts2)
           \<and> length parts1 \<le> length parts2
           \<and> prefix parts1 parts2
           \<and> prefix (join ''\<newline>'' parts1) (join ''\<newline>'' parts2)
           \<and> prefix parts1 blocks
           \<and> (parts1 \<noteq> [] \<longrightarrow> cost parts1 \<le> of_int m1)
           \<and> (length parts1 < length blocks
                \<longrightarrow> cost (take (Suc (length parts1)) blocks) > of_int m1)"
proof -
  let ?s = "by_timestamp ps"
  let ?b = "map (block_of hhmm render) ?s"
  let ?p1 = "accepted (of_int m1) 0 ?b"
  let ?p2 = "accepted (of_int m2) 0 ?b"
  have 1: "sort_by_timestamp ps = Inr ?s"
    using assms(1) by (rule sort_by_timestamp_typed)
  have 2: "sorted (map timestamp_of ?s)" by (rule sorted_by_timestamp)
  have 3: "map (page_text hhmm render) ?s = map Inr ?b"
    using assms(1) by (rule blocks_of_sorted)
  have 4: "budget_loop hhmm render m1 ?s 0 [] = Inr ?p1"
    using assms(1) by (rule budget_loop_typed)
  have 5: "budget_loop hhmm render m2 ?s 0 [] = Inr ?p2"
    using assms(1) by (rule budget_loop_typed)
  have 6: "prepare_content_for_llm hhmm render (JObj d) m1 = Inr (join ''\<newline>'' ?p1)"
    using assms(1,2) by (rule prepare_typed)
  have 7: "prepare_content_for_llm hhmm render (JObj d) m2 = Inr (join ''\<newline>'' ?p2)"
    using assms(1,2) by (rule prepare_typed)
  have le: "(of_int m1 :: rat) \<le> of_int m2"
    using assms(3) by simp
  have 9: "prefix ?p1 ?p2"
    using le by (rule accepted_mono)
  then have 8: "length ?p1 \<le> length ?p2"
    by (rule prefix_length_le)
  have 10: "prefix (join ''\<newline>'' ?p1) (join ''\<newline>'' ?p2)"
    using 9 by (rule join_prefix)
  have 11: "prefix ?p1 ?b" by (rule accepted_prefix)
  have 12: "?p1 \<noteq> [] \<longrightarrow> cost ?p1 \<le> of_int m1"
    using accepted_within [of "of_int m1" 0 ?b] by simp
  have 13: "length ?p1 < length ?b \<longrightarrow> cost (take (Suc (length ?p1)) ?b) > of_int m1"
    using accepted_stops [of "of_int m1" 0 ?b] by simp
  from 1 2 3 4 5 6 7 8 9 10 11 12 13 show ?thesis by blast
qed

text \<open>
  C5. For pages of the data model the output is the first \<open>k\<close> blocks of the pages
  in ascending, stable order of their timestamps, joined by one newline. Every block
  ends with a newline, so the newline between two blocks is one empty line: the output
  is each accepted block but the last followed by that line, then the last block. With
  no pages the output is the empty string.
\<close>

theorem budget_output:
  assumes "list_all typed_page ps" and "dict_get d ''pages'' (JArr []) = JArr ps"
  shows "\<exists>sorted_pages blocks k.
           sort_by_timestamp ps = Inr sorted_pages
           \<and> mset sorted_pages = mset ps
           \<and> sorted (map timestamp_of sorted_pages)
           \<and> (\<forall>t. filter (\<lambda>p. timestamp_of p = t) sorted_pages = filter (\<lambda>p. timestamp_of p = t) ps)
           \<and> map (page_text hhmm render) sorted_pages = map Inr blocks
           \<and> (\<forall>b \<in> set blocks. b \<noteq> [] \<and> last b = CHR ''\<newline>'')
           \<and> k \<le> length blocks
           \<and> budget_loop hhmm render m sorted_pages 0 [] = Inr (take k blocks)
           \<and> prepare_content_for_llm hhmm render (JObj d) m = Inr (join ''\<newline>'' (take k blocks))
           \<and> (0 < k \<longrightarrow> join ''\<newline>'' (take k blocks)
                 = concat (map (\<lambda>b. b @ ''\<newline>'') (butlast (take k blocks))) @ last (take k blocks))
           \<and> (ps = [] \<longrightarrow> prepare_content_for_llm hhmm render (JObj d) m = Inr [])"
proof -
  let ?s = "by_timestamp ps"
  let ?b = "map (block_of hhmm render) ?s"
  let ?p = "accepted (of_int m) 0 ?b"
  let ?k = "length ?p"
  have pre: "prefix ?p ?b" by (rule accepted_prefix)
  then have tk: "take ?k ?b = ?p"
    by (rule prefix_take)
  have 1: "sort_by_timestamp ps = Inr ?s"
    using assms(1) by (rule sort_by_timestamp_typed)
  have 2: "mset ?s = mset ps" by (rule mset_by_timestamp)
  have 3: "sorted (map timestamp_of ?s)" by (rule sorted_by_timestamp)
  have 4: "\<forall>t. filter (\<lambda>p. timestamp_of p = t) ?s = filter (\<lambda>p. timestamp_of p = t) ps"
    by (simp add: stable_by_timestamp)
  have 5: "map (page_text hhmm render) ?s = map Inr ?b"
    using assms(1) by (rule blocks_of_sorted)
  have 6: "\<forall>b \<in> set ?b. b \<noteq> [] \<and> last b = CHR ''\<newline>''"
    using assms(1) by (auto simp: set_by_timestamp list_all_iff block_ends_newline)
  have 7: "?k \<le> length ?b"
    using pre by (rule prefix_length_le)
  have 8: "budget_loop hhmm render m ?s 0 [] = Inr (take ?k ?b)"
    using budget_loop_typed [OF assms(1), of hhmm render m] by (simp only: tk)
  have 9: "prepare_content_for_llm hhmm render (JObj d) m = Inr (join ''\<newline>'' (take ?k ?b))"
    using prepare_typed [OF assms, of hhmm render m] by (simp only: tk)
  have 10: "0 < ?k \<longrightarrow> join ''\<newline>'' (take ?k ?b)
                 = concat (map (\<lambda>b. b @ ''\<newline>'') (butlast (take ?k ?b))) @ last (take ?k ?b)"
  proof
    assume "0 < ?k"
    then have "take ?k ?b \<noteq> []" by (simp only: tk) simp
    then show "join ''\<newline>'' (take ?k ?b)
                 = concat (map (\<lambda>b. b @ ''\<newline>'') (butlast (take ?k ?b))) @ last (take ?k ?b)"
      by (rule join_concat)
  qed
  have 11: "ps = [] \<longrightarrow> prepare_content_for_llm hhmm render (JObj d) m = Inr []"
    using assms(2) by (auto simp: prepare_content_for_llm_def)
  from 1 2 3 4 5 6 7 8 9 10 11 show ?thesis by blast
qed

theorem budget_monotone_witness:
  "list_all typed_page [visit_b, visit_c, visit_a]
   \<and> dict_get [(''date'', JStr ''2025-01-19''), (''pages'', JArr [visit_b, visit_c, visit_a])]
         ''pages'' (JArr []) = JArr [visit_b, visit_c, visit_a]
   \<and> (40 :: int) \<le> 150
   \<and> sort_by_timestamp [visit_b, visit_c, visit_a] = Inr [visit_a, visit_b, visit_c]
   \<and> cost [block_of hhmm_example render_example visit_a] = 63 / 4
   \<and> cost [block_of hhmm_example render_example visit_a,
            block_of hhmm_example render_example visit_b] = 113 / 2
   \<and> cost [block_of hhmm_example render_example visit_a,
            block_of hhmm_example render_example visit_c] = 63 / 2
   \<and> prepare_content_for_llm hhmm_example render_example
        (JObj [(''date'', JStr ''2025-01-19''), (''pages'', JArr [visit_b, visit_c, visit_a])]) 40
       = Inr (''\<newline>---\<newline>[08:05] A\<newline>Source: a.example\<newline>Content: ''
              @ replicate 20 CHR ''x'' @ ''\<newline>'')
   \<and> prepare_content_for_llm hhmm_example render_example
        (JObj [(''date'', JStr ''2025-01-19''), (''pages'', JArr [visit_b, visit_c, visit_a])]) 150
       = Inr (''\<newline>---\<newline>[08:05] A\<newline>Source: a.example\<newline>Content: ''
              @ replicate 20 CHR ''x'' @ ''\<newline>''
              @ ''\<newline>''
              @ ''\<newline>---\<newline>[09:30] B\<newline>Source: b.example\<newline>Content: ''
              @ replicate 120 CHR ''y'' @ ''\<newline>''
              @ ''\<newline>''
              @ ''\<newline>---\<newline>[10:00] C\<newline>Source: c.example\<newline>Content: ''
              @ replicate 20 CHR ''z'' @ ''\<newline>'')
   \<and> prefix
        (''\<newline>---\<newline>[08:05] A\<newline>Source: a.example\<newline>Content: ''
              @ replicate 20 CHR ''x'' @ ''\<newline>'')
        (''\<newline>---\<newline>[08:05] A\<newline>Source: a.example\<newline>Content: ''
              @ replicate 20 CHR ''x'' @ ''\<newline>''
              @ ''\<newline>''
              @ ''\<newline>---\<newline>[09:30] B\<newline>Source: b.example\<newline>Content: ''
              @ replicate 120 CHR ''y'' @ ''\<newline>''
              @ ''\<newline>''
              @ ''\<newline>---\<newline>[10:00] C\<newline>Source: c.example\<newline>Content: ''
              @ replicate 20 CHR ''z'' @ ''\<newline>'')"
proof -
  let ?ps = "[visit_b, visit_c, visit_a]"
  let ?d = "[(''date'', JStr ''2025-01-19''), (''pages'', JArr ?ps)]"
  let ?o1 = "''\<newline>---\<newline>[08:05] A\<newline>Source: a.example\<newline>Content: ''
              @ replicate 20 CHR ''x'' @ ''\<newline>''"
  let ?o2 = "''\<newline>---\<newline>[08:05] A\<newline>Source: a.example\<newline>Content: ''
              @ replicate 20 CHR ''x'' @ ''\<newline>''
              @ ''\<newline>''
              @ ''\<newline>---\<newline>[09:30] B\<newline>Source: b.example\<newline>Content: ''
              @ replicate 120 CHR ''y'' @ ''\<newline>''
              @ ''\<newline>''
              @ ''\<newline>---\<newline>[10:00] C\<newline>Source: c.example\<newline>Content: ''
              @ replicate 20 CHR ''z'' @ ''\<newline>''"
  have h1: "list_all typed_page ?ps" by code_simp
  have h2: "dict_get ?d ''pages'' (JArr []) = JArr ?ps" by code_simp
  have h3: "(40 :: int) \<le> 150" by simp
  have s: "sort_by_timestamp ?ps = Inr [visit_a, visit_b, visit_c]" by code_simp
  have c1: "cost [block_of hhmm_example render_example visit_a] = 63 / 4" by code_simp
  have c2: "cost [block_of hhmm_example render_example visit_a,
            block_of hhmm_example render_example visit_b] = 113 / 2" by code_simp
  have c3: "cost [block_of hhmm_example render_example visit_a,
            block_of hhmm_example render_example visit_c] = 63 / 2" by code_simp
  have o1: "prepare_content_for_llm hhmm_example render_example (JObj ?d) 40 = Inr ?o1"
    by code_simp
  have o2: "prepare_content_for_llm hhmm_example render_example (JObj ?d) 150 = Inr ?o2"
    by code_simp
  from budget_monotone [OF h1 h2 h3, of hhmm_example render_example]
  obtain parts1 parts2 where
    "prepare_content_for_llm hhmm_example render_example (JObj ?d) 40 = Inr (join ''\<newline>'' parts1)"
    "prepare_content_for_llm hhmm_example render_example (JObj ?d) 150 = Inr (join ''\<newline>'' parts2)"
    "prefix (join ''\<newline>'' parts1) (join ''\<newline>'' parts2)"
    by blast
  with o1 o2 have p: "prefix ?o1 ?o2" by (simp only: sum.inject)
  from h1 h2 h3 s c1 c2 c3 o1 o2 p show ?thesis
    by (intro conjI) (simp_all only:)
qed

theorem budget_output_witness:
  "list_all typed_page [visit_c, visit_a]
   \<and> dict_get [(''date'', JStr ''2025-01-19''), (''pages'', JArr [visit_c, visit_a])]
         ''pages'' (JArr []) = JArr [visit_c, visit_a]
   \<and> sort_by_timestamp [visit_c, visit_a] = Inr [visit_a, visit_c]
   \<and> sorted (map timestamp_of [visit_a, visit_c])
   \<and> prepare_content_for_llm hhmm_example render_example
        (JObj [(''date'', JStr ''2025-01-19''), (''pages'', JArr [visit_c, visit_a])]) 4000
       = Inr (''\<newline>---\<newline>[08:05] A\<newline>Source: a.example\<newline>Content: ''
              @ replicate 20 CHR ''x'' @ ''\<newline>''
              @ ''\<newline>''
              @ ''\<newline>---\<newline>[10:00] C\<newline>Source: c.example\<newline>Content: ''
              @ replicate 20 CHR ''z'' @ ''\<newline>'')
   \<and> prepare_content_for_llm hhmm_example render_example
        (JObj [(''date'', JStr ''2025-01-19''), (''pages'', JArr [])]) 4000 = Inr []"
proof -
  let ?ps = "[visit_c, visit_a]"
  let ?d = "[(''date'', JStr ''2025-01-19''), (''pages'', JArr ?ps)]"
  have h1: "list_all typed_page ?ps" by code_simp
  have h2: "dict_get ?d ''pages'' (JArr []) = JArr ?ps" by code_simp
  have s: "sort_by_timestamp ?ps = Inr [visit_a, visit_c]" by code_simp
  have o: "prepare_content_for_llm hhmm_example render_example (JObj ?d) 4000
       = Inr (''\<newline>---\<newline>[08:05] A\<newline>Source: a.example\<newline>Content: ''
              @ replicate 20 CHR ''x'' @ ''\<newline>''
              @ ''\<newline>''
              @ ''\<newline>---\<newline>[10:00] C\<newline>Source: c.example\<newline>Content: ''
              @ replicate 20 CHR ''z'' @ ''\<newline>'')"
    by code_simp
  have e: "prepare_content_for_llm hhmm_example render_example
        (JObj [(''date'', JStr ''2025-01-19''), (''pages'', JArr [])]) 4000 = Inr []"
    by code_simp
  from budget_output [OF h1 h2, of hhmm_example render_example 4000]
  obtain sorted_pages where
    "sort_by_timestamp ?ps = Inr sorted_pages" "sorted (map timestamp_of sorted_pages)"
    by blast
  with s have srt: "sorted (map timestamp_of [visit_a, visit_c])" by simp
  from h1 h2 s srt o e show ?thesis
    by (intro conjI) (simp_all only:)
qed


section \<open>Saving the digest: the clock\<close>

lemma save_digest_written:
  assumes tp: "map_of stats ''total_pages'' = Some total_pages"
    and tr: "map_of stats ''total_reading_time'' = Some total_reading_time"
  shows "artifact (save_digest render digest output_path date stats w) output_path =
           Some ((''# '' @ books @ '' Browsing Digest - '' @ py_format render date)
                 @ ''\<newline>**Generated**: '' @ strftime_minutes (clock w)
                 @ (''\<newline>**Pages analyzed**: '' @ py_format render total_pages
                    @ ''\<newline>**Estimated reading time**: ''
                    @ py_format render total_reading_time @ '' minutes''
                    @ ''\<newline>---\<newline>'' @ digest
                    @ ''\<newline>---\<newline>''
                    @ ''*Generated locally using llama.cpp server. No data left your machine.*''
                    @ ''\<newline>''))"
  by (simp add: save_digest_def artifact_def bind_err_def py_index_def tp tr Let_def)

text \<open>
  C9, amended. \<open>save_digest\<close> reads the clock itself. The file it writes is a
  function of its arguments and of the minute that clock shows: two runs on the same
  arguments in worlds whose clocks format alike write the same file. When the
  statistics hold both counts, so that a file is written, the file is a fixed head,
  the line \<open>**Generated**\<close> with the formatted clock, and a fixed tail: two runs
  whose clocks format differently write files that differ in that line.
\<close>

theorem digest_depends_on_clock:
  "(strftime_minutes (clock w1) = strftime_minutes (clock w2) \<longrightarrow>
      artifact (save_digest render digest output_path date stats w1) output_path
        = artifact (save_digest render digest output_path date stats w2) output_path)
   \<and> (map_of stats ''total_pages'' \<noteq> None \<and> map_of stats ''total_reading_time'' \<noteq> None \<longrightarrow>
        (\<exists>head tail. \<forall>w.
           artifact (save_digest render digest output_path date stats w) output_path
             = Some (head @ ''\<newline>**Generated**: '' @ strftime_minutes (clock w) @ tail))
        \<and> (strftime_minutes (clock w1) \<noteq> strftime_minutes (clock w2) \<longrightarrow>
             artifact (save_digest render digest output_path date stats w1) output_path
               \<noteq> artifact (save_digest render digest output_path date stats w2) output_path))"
proof (intro conjI impI)
  assume "strftime_minutes (clock w1) = strftime_minutes (clock w2)"
  then show "artifact (save_digest render digest output_path date stats w1) output_path
        = artifact (save_digest render digest output_path date stats w2) output_path"
    by (auto simp: save_digest_def artifact_def bind_err_def Let_def split: sum.splits)
next
  assume "map_of stats ''total_pages'' \<noteq> None \<and> map_of stats ''total_reading_time'' \<noteq> None"
  then obtain tp tr where tp: "map_of stats ''total_pages'' = Some tp"
    and tr: "map_of stats ''total_reading_time'' = Some tr"
    by auto
  from save_digest_written [OF tp tr, of render digest output_path date]
  show "\<exists>head tail. \<forall>w.
           artifact (save_digest render digest output_path date stats w) output_path
             = Some (head @ ''\<newline>**Generated**: '' @ strftime_minutes (clock w) @ tail)"
    by blast
next
  assume "map_of stats ''total_pages'' \<noteq> None \<and> map_of stats ''total_reading_time'' \<noteq> None"
    and ne: "strftime_minutes (clock w1) \<noteq> strftime_minutes (clock w2)"
  then obtain tp tr where tp: "map_of stats ''total_pages'' = Some tp"
    and tr: "map_of stats ''total_reading_time'' = Some tr"
    by auto
  have len: "length (strftime_minutes (clock w1)) = length (strftime_minutes (clock w2))"
    by (simp add: strftime_minutes_def pad2_def pad4_def)
  show "artifact (save_digest render digest output_path date stats w1) output_path
               \<noteq> artifact (save_digest render digest output_path date stats w2) output_path"
    using ne len
    by (simp only: save_digest_written [OF tp tr] option.inject same_append_eq
        append_eq_append_conv) simp
qed

theorem digest_depends_on_clock_witness:
  "strftime_minutes (clock morning) = strftime_minutes (clock morning_later)
   \<and> clock morning \<noteq> clock morning_later
   \<and> artifact (save_digest render_example ''SUMMARY'' ''digest.md'' (JStr ''2025-01-19'')
        [(''total_pages'', JNum 3), (''total_reading_time'', JNum (25 / 2))] morning) ''digest.md''
     = artifact (save_digest render_example ''SUMMARY'' ''digest.md'' (JStr ''2025-01-19'')
        [(''total_pages'', JNum 3), (''total_reading_time'', JNum (25 / 2))] morning_later) ''digest.md''
   \<and> map_of [(''total_pages'', JNum 3), (''total_reading_time'', JNum (25 / 2))] ''total_pages'' \<noteq> None
   \<and> map_of [(''total_pages'', JNum 3), (''total_reading_time'', JNum (25 / 2))] ''total_reading_time'' \<noteq> None
   \<and> strftime_minutes (clock morning) \<noteq> strftime_minutes (clock next_minute)
   \<and> artifact (save_digest render_example ''SUMMARY'' ''digest.md'' (JStr ''2025-01-19'')
        [(''total_pages'', JNum 3), (''total_reading_time'', JNum (25 / 2))] morning) ''digest.md''
     \<noteq> artifact (save_digest render_example ''SUMMARY'' ''digest.md'' (JStr ''2025-01-19'')
        [(''total_pages'', JNum 3), (''total_reading_time'', JNum (25 / 2))] next_minute) ''digest.md''"
proof -
  let ?stats = "[(''total_pages'', JNum 3), (''total_reading_time'', JNum (25 / 2))]"
  have h: "strftime_minutes (clock morning) = strftime_minutes (clock morning_later)"
    by code_simp
  have n: "clock morning \<noteq> clock morning_later"
    by (simp add: morning_def morning_later_def)
  have k: "map_of ?stats ''total_pages'' \<noteq> None \<and> map_of ?stats ''total_reading_time'' \<noteq> None"
    by simp
  have d: "strftime_minutes (clock morning) \<noteq> strftime_minutes (clock next_minute)"
    by code_simp
  note T1 = digest_depends_on_clock
    [of morning morning_later render_example "''SUMMARY''" "''digest.md''" "JStr ''2025-01-19''" ?stats]
  note T2 = digest_depends_on_clock
    [of morning next_minute render_example "''SUMMARY''" "''digest.md''" "JStr ''2025-01-19''" ?stats]
  have same: "artifact (save_digest render_example ''SUMMARY'' ''digest.md'' (JStr ''2025-01-19'')
        ?stats morning) ''digest.md''
     = artifact (save_digest render_example ''SUMMARY'' ''digest.md'' (JStr ''2025-01-19'')
        ?stats morning_later) ''digest.md''"
    by (rule T1 [THEN conjunct1, rule_format, OF h])
  have diff: "artifact (save_digest render_example ''SUMMARY'' ''digest.md'' (JStr ''2025-01-19'')
        ?stats morning) ''digest.md''
     \<noteq> artifact (save_digest render_example ''SUMMARY'' ''digest.md'' (JStr ''2025-01-19'')
        ?stats next_minute) ''digest.md''"
    by (rule T2 [THEN conjunct2, rule_format, OF k, THEN conjunct2, rule_format, OF d])
  from h n same k d diff show ?thesis
    by (intro conjI) (simp_all only: simp_thms)
qed

text \<open>
  C9 as stated fails: the same narrative, date and statistics, saved a minute apart,
  give two files that differ in the line \<open>**Generated**\<close>. No argument of
  \<open>save_digest\<close> carries the timestamp.
\<close>

theorem digest_timestamp_counterexample:
  "artifact (save_digest render_example ''SUMMARY'' ''digest.md'' (JStr ''2025-01-19'')
        [(''total_pages'', JNum 3), (''total_reading_time'', JNum (25 / 2))] morning) ''digest.md''
     = Some (''# '' @ books @ '' Browsing Digest - 2025-01-19\<newline>''
             @ ''**Generated**: 2025-01-20 07:30\<newline>''
             @ ''**Pages analyzed**: 3\<newline>''
             @ ''**Estimated reading time**: 12.5 minutes\<newline>''
             @ ''---\<newline>SUMMARY\<newline>---\<newline>''
             @ ''*Generated locally using llama.cpp server. No data left your machine.*\<newline>'')
   \<and> artifact (save_digest render_example ''SUMMARY'' ''digest.md'' (JStr ''2025-01-19'')
        [(''total_pages'', JNum 3), (''total_reading_time'', JNum (25 / 2))] next_minute) ''digest.md''
     = Some (''# '' @ books @ '' Browsing Digest - 2025-01-19\<newline>''
             @ ''**Generated**: 2025-01-20 07:31\<newline>''
             @ ''**Pages analyzed**: 3\<newline>''
             @ ''**Estimated reading time**: 12.5 minutes\<newline>''
             @ ''---\<newline>SUMMARY\<newline>---\<newline>''
             @ ''*Generated locally using llama.cpp server. No data left your machine.*\<newline>'')
   \<and> artifact (save_digest render_example ''SUMMARY'' ''digest.md'' (JStr ''2025-01-19'')
        [(''total_pages'', JNum 3), (''total_reading_time'', JNum (25 / 2))] morning) ''digest.md''
     \<noteq> artifact (save_digest render_example ''SUMMARY'' ''digest.md'' (JStr ''2025-01-19'')
        [(''total_pages'', JNum 3), (''total_reading_time'', JNum (25 / 2))] next_minute) ''digest.md''"
proof -
  have t1: "strftime_minutes (clock morning) = ''2025-01-20 07:30''"
    by code_simp
  have t2: "strftime_minutes (clock next_minute) = ''2025-01-20 07:31''"
    by code_simp
  have r1: "py_format render_example (JNum 3) = ''3''"
    and r2: "py_format render_example (JNum (25 / 2)) = ''12.5''"
    and r0: "py_format render_example (JStr ''2025-01-19'') = ''2025-01-19''"
    by (simp_all add: py_format_def render_example_def)
  show ?thesis
    by (simp add: artifact_def save_digest_def py_index_def Let_def t1 t2 r0 r1 r2)
qed

end
